theory Spec2Isabelle
  imports Complex_Main "HOL-Library.AList" "HOL-Library.Char_ord" "HOL-Library.List_Lexorder"
begin

section \<open>Go types and values as the reflective engine sees them\<close>

text \<open>
  The package \<open>crdt\<close> (file \<open>crdt.go\<close>) works on \<open>reflect.Value\<close>s. A value is modelled
  by its type (\<open>gotype\<close>) and its contents (\<open>val\<close>). The kinds are those the engine
  dispatches on: the fourteen ordered scalar kinds, structs, maps, and pointers (the kind
  of the first argument of \<open>Merge\<close>, and here the representative of every kind the engine
  does not merge).

  Integers carry their width in the type only; the engine compares them and never does
  arithmetic, so their values are \<open>int\<close> and \<open>nat\<close>, and \<open>conforms\<close> below bounds them.
  A float is one of the IEEE classes that matter for \<open>>\<close>: NaN, the infinities, the
  negative zero, and a finite value (\<open>FFin 0\<close> is the positive zero).
\<close>

datatype ikind = K_int | K_int8 | K_int16 | K_int32 | K_int64
datatype ukind = K_uint | K_uint8 | K_uint16 | K_uint32 | K_uint64
datatype fkind = K_float32 | K_float64

datatype basic = BBool | BInt ikind | BUint ukind | BFloat fkind | BString

datatype kind = KBool | KInt ikind | KUint ukind | KFloat fkind | KString
  | KStruct | KMap | KPtr

text \<open>
  A struct type lists for each field its \<open>Name\<close> and \<open>PkgPath\<close> (empty for an exported
  field), and, in the same order, the field types. \<open>TNamed n u\<close> is the defined type
  \<open>type n u\<close>. A defined type has the methods declared for it; a struct type, defined or
  not, also has the methods of its embedded fields, by promotion.
\<close>

datatype gotype =
    TBasic basic
  | TStruct "(string \<times> string) list" "gotype list"
  | TMap gotype gotype
  | TPtr gotype
  | TNamed string gotype

datatype gofloat = FNaN | FNegInf | FNegZero | FFin real | FPosInf

text \<open>
  Maps are reference values: \<open>VMap None\<close> is the nil map, \<open>VMap (Some r)\<close> refers to the map
  object at address \<open>r\<close> of the heap. A pointer holds the value of the variable it points to
  (\<open>None\<close> for the nil pointer); the engine reaches a pointer only as the first argument of
  \<open>Merge\<close>.
\<close>

datatype val =
    VBool bool
  | VInt int
  | VUint nat
  | VFloat gofloat
  | VString string
  | VStruct "val list"
  | VMap "nat option"
  | VPtr "val option"

text \<open>
  The heap holds the map objects: object \<open>r\<close> is the association list \<open>h ! r\<close> of its
  entries. \<open>reflect.MakeMap\<close> appends an empty object.
\<close>

type_synonym heap = "(val \<times> val) list list"

text \<open>An \<open>interface{}\<close> value: dynamic type and contents.\<close>

type_synonym dyn = "gotype \<times> val"

text \<open>
  Every panic of the source is an error value. \<open>IllFormed\<close> marks what no Go program can
  build (contents that do not have their type, an address outside the heap).
\<close>

datatype error =
    NotAPointer
  | TypeMismatch
  | Unexported string
  | CannotMerge
  | CannotCompare
  | ReflectPanic
  | MergerPanic
  | IllFormed

type_synonym mergefn = "val \<Rightarrow> val \<Rightarrow> heap \<Rightarrow> error + (bool \<times> val \<times> heap)"

text \<open>
  The method table: \<open>mt t = Some f\<close> when \<open>*t\<close> implements \<open>Merger\<close>, with \<open>f\<close> the effect of
  its \<open>Merge\<close> method, declared or promoted, on the receiver's value and on the heap.
\<close>

type_synonym methods = "gotype \<Rightarrow> mergefn option"

primrec kind_of :: "gotype \<Rightarrow> kind" where
  "kind_of (TBasic b) =
     (case b of BBool \<Rightarrow> KBool | BInt k \<Rightarrow> KInt k | BUint k \<Rightarrow> KUint k
      | BFloat k \<Rightarrow> KFloat k | BString \<Rightarrow> KString)"
| "kind_of (TStruct ds ts) = KStruct"
| "kind_of (TMap kt vt) = KMap"
| "kind_of (TPtr t) = KPtr"
| "kind_of (TNamed n u) = kind_of u"

text \<open>\<open>reflect.New(t).Elem()\<close>: the zero value of a type.\<close>

primrec zero :: "gotype \<Rightarrow> val" where
  "zero (TBasic b) =
     (case b of BBool \<Rightarrow> VBool False | BInt k \<Rightarrow> VInt 0 | BUint k \<Rightarrow> VUint 0
      | BFloat k \<Rightarrow> VFloat (FFin 0) | BString \<Rightarrow> VString [])"
| "zero (TStruct ds ts) = VStruct (map zero ts)"
| "zero (TMap kt vt) = VMap None"
| "zero (TPtr t) = VPtr None"
| "zero (TNamed n u) = zero u"

section \<open>The engine\<close>

text \<open>\<open>isOrdered\<close>, lines 36 to 51.\<close>

fun isOrdered :: "kind \<Rightarrow> bool" where
  "isOrdered KBool = True"
| "isOrdered (KInt k) = True"
| "isOrdered (KUint k) = True"
| "isOrdered (KFloat k) = True"
| "isOrdered KString = True"
| "isOrdered k = False"

text \<open>
  The comparison \<open>>\<close> of \<open>float32\<close> and \<open>float64\<close>: false when an operand is NaN, and the two
  zeros are equal.
\<close>

fun float_rank :: "gofloat \<Rightarrow> (int \<times> real) option" where
  "float_rank FNaN = None"
| "float_rank FNegInf = Some (- 1, 0)"
| "float_rank FNegZero = Some (0, 0)"
| "float_rank (FFin r) = Some (0, r)"
| "float_rank FPosInf = Some (1, 0)"

definition float_gt :: "gofloat \<Rightarrow> gofloat \<Rightarrow> bool" where
  "float_gt a b =
     (case (float_rank a, float_rank b) of
        (Some (i, x), Some (j, y)) \<Rightarrow> j < i \<or> (i = j \<and> y < x)
      | _ \<Rightarrow> False)"

text \<open>
  \<open>greater\<close>, lines 54 to 87. The type switch is on the dynamic type of \<open>a\<close>: a defined type
  such as \<open>type Celsius float64\<close> matches none of the cases and reaches the \<open>default\<close>
  panic. Both operands have the same type wherever \<open>merge\<close> calls \<open>greater\<close>.
\<close>

definition greater :: "gotype \<Rightarrow> val \<Rightarrow> val \<Rightarrow> error + bool" where
  "greater ty a b =
     (case ty of
        TBasic BBool \<Rightarrow>
          (case (a, b) of (VBool x, VBool y) \<Rightarrow> Inr (x \<and> \<not> y) | _ \<Rightarrow> Inl IllFormed)
      | TBasic (BInt k) \<Rightarrow>
          (case (a, b) of (VInt x, VInt y) \<Rightarrow> Inr (y < x) | _ \<Rightarrow> Inl IllFormed)
      | TBasic (BUint k) \<Rightarrow>
          (case (a, b) of (VUint x, VUint y) \<Rightarrow> Inr (y < x) | _ \<Rightarrow> Inl IllFormed)
      | TBasic (BFloat k) \<Rightarrow>
          (case (a, b) of (VFloat x, VFloat y) \<Rightarrow> Inr (float_gt x y) | _ \<Rightarrow> Inl IllFormed)
      | TBasic BString \<Rightarrow>
          (case (a, b) of (VString x, VString y) \<Rightarrow> Inr (y < x) | _ \<Rightarrow> Inl IllFormed)
      | _ \<Rightarrow> Inl CannotCompare)"

text \<open>
  Go's \<open>==\<close> on the keys of a map: a \<open>NaN\<close> is equal to nothing, not even to itself, the two
  zeros are equal, structs are equal when their fields are. \<open>has_nan\<close> finds a \<open>NaN\<close> in a
  key, \<open>knorm\<close> reads the negative zero as zero. (A pointer is compared by its contents
  here and by its address in Go: pointers as keys are outside the model.)
\<close>

fun has_nan :: "val \<Rightarrow> bool" where
  "has_nan (VFloat f) = (f = FNaN)"
| "has_nan (VStruct vs) = (\<exists>v \<in> set vs. has_nan v)"
| "has_nan v = False"

fun knorm :: "val \<Rightarrow> val" where
  "knorm (VFloat f) = VFloat (if f = FNegZero then FFin 0 else f)"
| "knorm (VStruct vs) = VStruct (map knorm vs)"
| "knorm v = v"

definition key_eq :: "val \<Rightarrow> val \<Rightarrow> bool" where
  "key_eq a b = (\<not> has_nan a \<and> \<not> has_nan b \<and> knorm a = knorm b)"

text \<open>
  A map object is the list of its entries. The runtime looks a key up with \<open>==\<close>
  (\<open>mapaccess\<close>), assigns to the entry of an equal key, storing the new key, or adds an
  entry (\<open>mapassign\<close>), and deletes the entry of an equal key (\<open>mapdelete\<close>). An entry
  whose key holds a \<open>NaN\<close> is never found again.
\<close>

definition mapaccess :: "(val \<times> val) list \<Rightarrow> val \<Rightarrow> val option" where
  "mapaccess al key = map_option snd (find (\<lambda>e. key_eq (fst e) key) al)"

fun mapassign :: "val \<Rightarrow> val \<Rightarrow> (val \<times> val) list \<Rightarrow> (val \<times> val) list" where
  "mapassign key v [] = [(key, v)]"
| "mapassign key v (e # es) =
     (if key_eq (fst e) key then (key, v) # es else e # mapassign key v es)"

definition mapdelete :: "val \<Rightarrow> (val \<times> val) list \<Rightarrow> (val \<times> val) list" where
  "mapdelete key al = filter (\<lambda>e. \<not> key_eq (fst e) key) al"

text \<open>The reflective map operations on the heap.\<close>

definition MapKeys :: "heap \<Rightarrow> nat option \<Rightarrow> error + val list" where
  "MapKeys h m =
     (case m of None \<Rightarrow> Inr []
      | Some r \<Rightarrow> if r < length h then Inr (map fst (h ! r)) else Inl IllFormed)"

text \<open>\<open>MapIndex\<close> returns \<open>None\<close> for the invalid \<open>Value\<close> (no such key, or a nil map).\<close>

definition MapIndex :: "heap \<Rightarrow> nat option \<Rightarrow> val \<Rightarrow> val option" where
  "MapIndex h m key =
     (case m of None \<Rightarrow> None
      | Some r \<Rightarrow> if r < length h then mapaccess (h ! r) key else None)"

text \<open>
  \<open>SetMapIndex\<close> with the invalid \<open>Value\<close> as element deletes the key; assigning to an
  entry of a nil map panics.
\<close>

definition SetMapIndex :: "heap \<Rightarrow> nat option \<Rightarrow> val \<Rightarrow> val option \<Rightarrow> error + heap" where
  "SetMapIndex h m key elem =
     (case m of
        None \<Rightarrow> (case elem of None \<Rightarrow> Inr h | Some v \<Rightarrow> Inl ReflectPanic)
      | Some r \<Rightarrow>
          if r < length h then
            Inr (h[r := (case elem of
                           None \<Rightarrow> mapdelete key (h ! r)
                         | Some v \<Rightarrow> mapassign key v (h ! r))])
          else Inl IllFormed)"

text \<open>
  The last branch but one of \<open>merge\<close>, lines 125 to 132: an ordered kind takes \<open>b\<close> when it
  is greater, any other kind panics.
\<close>

definition merge_ordered :: "gotype \<Rightarrow> mergefn" where
  "merge_ordered ty a b h =
     (if isOrdered (kind_of ty) then
        (case greater ty b a of
           Inl e \<Rightarrow> Inl e
         | Inr g \<Rightarrow> if g then Inr (True, b, h) else Inr (False, a, h))
      else Inl CannotMerge)"

text \<open>
  The loop over the fields, lines 97 to 105. \<open>ds\<close> are the fields' names and package
  paths, \<open>ms\<close> the merges of the fields' types.
\<close>

fun merge_fields ::
  "(string \<times> string) list \<Rightarrow> mergefn list \<Rightarrow> val list \<Rightarrow> val list \<Rightarrow> heap
     \<Rightarrow> error + (bool \<times> val list \<times> heap)" where
  "merge_fields [] [] [] [] h = Inr (False, [], h)"
| "merge_fields (d # ds) (m # ms) (a # as) (b # bs) h =
     (if snd d \<noteq> [] then Inl (Unexported (fst d))
      else
        (case m a b h of
           Inl e \<Rightarrow> Inl e
         | Inr (c, a', h1) \<Rightarrow>
             (case merge_fields ds ms as bs h1 of
                Inl e \<Rightarrow> Inl e
              | Inr (cs, as', h2) \<Rightarrow> Inr (c \<or> cs, a' # as', h2))))"
| "merge_fields ds ms as bs h = Inl IllFormed"

definition merge_struct :: "(string \<times> string) list \<Rightarrow> mergefn list \<Rightarrow> mergefn" where
  "merge_struct ds ms a b h =
     (case (a, b) of
        (VStruct as, VStruct bs) \<Rightarrow>
          (case merge_fields ds ms as bs h of
             Inl e \<Rightarrow> Inl e
           | Inr (c, as', h') \<Rightarrow> Inr (c, VStruct as', h'))
      | _ \<Rightarrow> Inl IllFormed)"

text \<open>
  The loop over the keys of \<open>b\<close>, lines 110 to 124. \<open>m\<close> is the merge of the element type
  and \<open>z\<close> its zero value, the scratch value \<open>reflect.New(aValue.Type()).Elem()\<close>.
  \<open>b.MapIndex(key)\<close> is the invalid \<open>Value\<close> when the key holds a \<open>NaN\<close>; then
  \<open>a.MapIndex(key)\<close> is invalid too, and line 121 deletes the key from \<open>a\<close>, which has no
  entry for it. Merging the invalid \<open>Value\<close> into a scratch value would panic in
  \<open>reflect\<close>.
\<close>

fun merge_keys ::
  "mergefn \<Rightarrow> val \<Rightarrow> nat option \<Rightarrow> nat option \<Rightarrow> val list \<Rightarrow> heap
     \<Rightarrow> error + (bool \<times> heap)" where
  "merge_keys m z a b [] h = Inr (False, h)"
| "merge_keys m z a b (key # keys) h =
     (case MapIndex h a key of
        Some aValue \<Rightarrow>
          (case m z aValue h of
             Inl e \<Rightarrow> Inl e
           | Inr (c0, newValue0, h0) \<Rightarrow>
               (case MapIndex h b key of
                  None \<Rightarrow> Inl ReflectPanic
                | Some bValue \<Rightarrow>
                    (case m newValue0 bValue h0 of
                       Inl e \<Rightarrow> Inl e
                     | Inr (c, newValue, h1) \<Rightarrow>
                         if c then
                           (case SetMapIndex h1 a key (Some newValue) of
                              Inl e \<Rightarrow> Inl e
                            | Inr h2 \<Rightarrow>
                                (case merge_keys m z a b keys h2 of
                                   Inl e \<Rightarrow> Inl e
                                 | Inr (cs, h3) \<Rightarrow> Inr (True, h3)))
                         else merge_keys m z a b keys h1)))
      | None \<Rightarrow>
          (case SetMapIndex h a key (MapIndex h b key) of
             Inl e \<Rightarrow> Inl e
           | Inr h2 \<Rightarrow>
               (case merge_keys m z a b keys h2 of
                  Inl e \<Rightarrow> Inl e
                | Inr (cs, h3) \<Rightarrow> Inr (True, h3))))"

text \<open>The map branch, lines 106 to 124.\<close>

definition merge_map :: "mergefn \<Rightarrow> val \<Rightarrow> mergefn" where
  "merge_map m z a b h =
     (case (a, b) of
        (VMap ra, VMap rb) \<Rightarrow>
          (let (ra', h1) =
                 (if ra = None \<and> rb \<noteq> None then (Some (length h), h @ [[]]) else (ra, h))
           in case MapKeys h1 rb of
                Inl e \<Rightarrow> Inl e
              | Inr keys \<Rightarrow>
                  (case merge_keys m z ra' rb keys h1 of
                     Inl e \<Rightarrow> Inl e
                   | Inr (c, h2) \<Rightarrow> Inr (c, VMap ra', h2)))
      | _ \<Rightarrow> Inl IllFormed)"

text \<open>
  \<open>merge\<close>, lines 92 to 134, by recursion on the type of \<open>a\<close>. The dispatch is the source's:
  a type with the \<open>Merge\<close> method first, then the struct kind, the map kind, the ordered
  kinds, and the panic. Line 94 tests every value; the test can succeed for a defined type
  and for a struct type, the types that can have methods: a predeclared type, a map type and
  a pointer type that are not defined types have none. (A defined struct type has the
  promoted methods of its underlying struct type, so no program has a method table that is
  \<open>None\<close> at \<open>TNamed n u\<close> and \<open>Some f\<close> at the struct type \<open>u\<close>.)
\<close>

primrec merge :: "methods \<Rightarrow> gotype \<Rightarrow> mergefn" where
  "merge mt (TBasic b) = merge_ordered (TBasic b)"
| "merge mt (TStruct ds ts) =
     (case mt (TStruct ds ts) of
        Some f \<Rightarrow> f
      | None \<Rightarrow> merge_struct ds (map (merge mt) ts))"
| "merge mt (TMap kt vt) = merge_map (merge mt vt) (zero vt)"
| "merge mt (TPtr t) = merge_ordered (TPtr t)"
| "merge mt (TNamed n u) =
     (case mt (TNamed n u) of
        Some f \<Rightarrow> f
      | None \<Rightarrow>
          (case kind_of u of
             KStruct \<Rightarrow> merge mt u
           | KMap \<Rightarrow> merge mt u
           | _ \<Rightarrow> merge_ordered (TNamed n u)))"

text \<open>\<open>Merge\<close>, lines 139 to 149. The result holds the new value of the variable \<open>a\<close> points to.\<close>

primrec elem :: "gotype \<Rightarrow> gotype option" where
  "elem (TBasic b) = None"
| "elem (TStruct ds ts) = None"
| "elem (TMap kt vt) = None"
| "elem (TPtr t) = Some t"
| "elem (TNamed n u) = elem u"

definition Merge :: "methods \<Rightarrow> dyn \<Rightarrow> dyn \<Rightarrow> heap \<Rightarrow> error + (bool \<times> val \<times> heap)" where
  "Merge mt a b h =
     (if kind_of (fst a) \<noteq> KPtr then Inl NotAPointer
      else
        (case (elem (fst a), snd a) of
           (Some t, VPtr (Some v)) \<Rightarrow>
             if t \<noteq> fst b then Inl TypeMismatch else merge mt t v (snd b) h
         | _ \<Rightarrow> Inl ReflectPanic))"

text \<open>\<open>join\<close> and \<open>Join\<close>, lines 151 to 167.\<close>

definition join :: "methods \<Rightarrow> gotype \<Rightarrow> val \<Rightarrow> val \<Rightarrow> heap \<Rightarrow> error + (val \<times> heap)" where
  "join mt ty a b h =
     (case merge mt ty (zero ty) a h of
        Inl e \<Rightarrow> Inl e
      | Inr (c1, value1, h1) \<Rightarrow>
          (case merge mt ty value1 b h1 of
             Inl e \<Rightarrow> Inl e
           | Inr (c2, value2, h2) \<Rightarrow> Inr (value2, h2)))"

definition Join :: "methods \<Rightarrow> dyn \<Rightarrow> dyn \<Rightarrow> heap \<Rightarrow> error + (dyn \<times> heap)" where
  "Join mt a b h =
     (if fst a \<noteq> fst b then Inl TypeMismatch
      else
        (case join mt (fst a) (snd a) (snd b) h of
           Inl e \<Rightarrow> Inl e
         | Inr (v, h') \<Rightarrow> Inr ((fst a, v), h')))"

section \<open>Well-formed values\<close>

text \<open>
  \<open>conforms h t v\<close>: the contents \<open>v\<close> are a value of type \<open>t\<close> in the heap \<open>h\<close>. Integers are
  within the range of their width (\<open>int\<close> and \<open>uint\<close> taken as 64 bits wide), a map is nil
  or refers to an object of the heap whose entries have the key and element types and whose
  keys are pairwise different. The keys are also required to hold no \<open>NaN\<close> (\<open>keys_ok\<close>):
  a value that conforms is a value all of whose map entries can be looked up.
\<close>

definition keys_ok :: "(val \<times> val) list \<Rightarrow> bool" where
  "keys_ok al = ((\<forall>e \<in> set al. \<not> has_nan (fst e)) \<and> distinct (map (knorm \<circ> fst) al))"

fun ibits :: "ikind \<Rightarrow> nat" where
  "ibits K_int = 64"
| "ibits K_int8 = 8"
| "ibits K_int16 = 16"
| "ibits K_int32 = 32"
| "ibits K_int64 = 64"

fun ubits :: "ukind \<Rightarrow> nat" where
  "ubits K_uint = 64"
| "ubits K_uint8 = 8"
| "ubits K_uint16 = 16"
| "ubits K_uint32 = 32"
| "ubits K_uint64 = 64"

primrec conforms :: "heap \<Rightarrow> gotype \<Rightarrow> val \<Rightarrow> bool" where
  "conforms h (TBasic b) v =
     (case b of
        BBool \<Rightarrow> (case v of VBool x \<Rightarrow> True | _ \<Rightarrow> False)
      | BInt k \<Rightarrow>
          (case v of VInt x \<Rightarrow> - (2 ^ (ibits k - 1)) \<le> x \<and> x < 2 ^ (ibits k - 1) | _ \<Rightarrow> False)
      | BUint k \<Rightarrow> (case v of VUint x \<Rightarrow> x < 2 ^ ubits k | _ \<Rightarrow> False)
      | BFloat k \<Rightarrow> (case v of VFloat x \<Rightarrow> True | _ \<Rightarrow> False)
      | BString \<Rightarrow> (case v of VString x \<Rightarrow> True | _ \<Rightarrow> False))"
| "conforms h (TStruct ds ts) v =
     (case v of VStruct vs \<Rightarrow> list_all2 (\<lambda>p x. p x) (map (conforms h) ts) vs | _ \<Rightarrow> False)"
| "conforms h (TMap kt vt) v =
     (case v of
        VMap None \<Rightarrow> True
      | VMap (Some r) \<Rightarrow>
          r < length h \<and> keys_ok (h ! r) \<and>
          (\<forall>e \<in> set (h ! r). conforms h kt (fst e) \<and> conforms h vt (snd e))
      | _ \<Rightarrow> False)"
| "conforms h (TPtr t) v =
     (case v of VPtr None \<Rightarrow> True | VPtr (Some x) \<Rightarrow> conforms h t x | _ \<Rightarrow> False)"
| "conforms h (TNamed n u) v = conforms h u v"

text \<open>
  The natural ordering of the scalar values in the words of the specification: false
  before true, numbers by value, strings lexicographically by byte.
\<close>

fun natural_less :: "val \<Rightarrow> val \<Rightarrow> bool" where
  "natural_less (VBool x) (VBool y) = (\<not> x \<and> y)"
| "natural_less (VInt x) (VInt y) = (x < y)"
| "natural_less (VUint x) (VUint y) = (x < y)"
| "natural_less (VFloat x) (VFloat y) = float_gt y x"
| "natural_less (VString x) (VString y) = (x < y)"
| "natural_less a b = False"

section \<open>The test suite's types\<close>

text \<open>
  \<open>decreasingInt\<close> of \<open>crdt_test.go\<close>, lines 8 to 17: a defined \<open>int\<close> whose \<open>Merge\<close> keeps the
  smaller value.
\<close>

definition decreasingInt :: gotype where
  "decreasingInt = TNamed ''decreasingInt'' (TBasic (BInt K_int))"

definition decreasingInt_Merge :: mergefn where
  "decreasingInt_Merge i other h =
     (case (i, other) of
        (VInt x, VInt otherInt) \<Rightarrow>
          if otherInt < x then Inr (True, VInt otherInt, h) else Inr (False, VInt x, h)
      | _ \<Rightarrow> Inl MergerPanic)"

definition test_methods :: methods where
  "test_methods t = (if t = decreasingInt then Some decreasingInt_Merge else None)"

text \<open>
  A struct type that embeds \<open>decreasingInt\<close>, as in \<open>struct{ decreasingInt }\<close>, has the
  \<open>Merge\<close> method of the field by promotion: the receiver is the embedded field, and the
  argument is passed on as it is. (The field is unexported, so its package path is not
  empty.)
\<close>

definition embedsDecreasingInt :: gotype where
  "embedsDecreasingInt = TStruct [(''decreasingInt'', ''crdt'')] [decreasingInt]"

definition promoted_Merge :: mergefn where
  "promoted_Merge s other h =
     (case s of
        VStruct [i] \<Rightarrow>
          (case decreasingInt_Merge i other h of
             Inl e \<Rightarrow> Inl e
           | Inr (c, i', h') \<Rightarrow> Inr (c, VStruct [i'], h'))
      | _ \<Rightarrow> Inl IllFormed)"

definition embedding_methods :: methods where
  "embedding_methods t =
     (if t = decreasingInt then Some decreasingInt_Merge
      else if t = embedsDecreasingInt then Some promoted_Merge
      else None)"

text \<open>No type has a \<open>Merge\<close> method.\<close>

definition no_methods :: methods where
  "no_methods t = None"

section \<open>Types the engine merges by itself\<close>

text \<open>
  Key types are the comparable types whose \<open>==\<close> is \<open>key_eq\<close>: scalars and structs of them,
  no maps (Go has no \<open>==\<close> for them), no pointers.
\<close>

primrec comparable :: "gotype \<Rightarrow> bool" where
  "comparable (TBasic b) = True"
| "comparable (TStruct ds ts) = list_all (\<lambda>p. p) (map comparable ts)"
| "comparable (TMap kt vt) = False"
| "comparable (TPtr t) = False"
| "comparable (TNamed n u) = comparable u"

text \<open>
  \<open>mergeable mt t\<close>: every part of \<open>t\<close> is merged by one of the engine's three strategies:
  predeclared ordered scalars, structs with exported fields only, maps. No type in \<open>t\<close> has a
  \<open>Merge\<close> method, declared or promoted, and the defined types are structs and maps.
\<close>

primrec mergeable :: "methods \<Rightarrow> gotype \<Rightarrow> bool" where
  "mergeable mt (TBasic b) = True"
| "mergeable mt (TStruct ds ts) =
     (mt (TStruct ds ts) = None \<and> length ds = length ts \<and> (\<forall>d \<in> set ds. snd d = [])
      \<and> list_all (\<lambda>p. p) (map (mergeable mt) ts))"
| "mergeable mt (TMap kt vt) = (comparable kt \<and> mergeable mt vt)"
| "mergeable mt (TPtr t) = False"
| "mergeable mt (TNamed n u) =
     (mt (TNamed n u) = None \<and> (kind_of u = KStruct \<or> kind_of u = KMap) \<and> mergeable mt u)"

section \<open>Map objects: who refers to what\<close>

text \<open>
  \<open>droots v\<close> are the map objects that \<open>v\<close> holds itself, at the top or in struct fields:
  the objects that \<open>merge\<close> writes to when \<open>v\<close> is its target. \<open>reach h t v\<close> are the objects
  reached from \<open>v\<close>, also through the entries of maps, and \<open>inner h t v\<close> those reached
  through at least one entry.
\<close>

fun droots :: "val \<Rightarrow> nat list" where
  "droots (VMap (Some r)) = [r]"
| "droots (VStruct vs) = concat (map droots vs)"
| "droots v = []"

definition roots :: "val \<Rightarrow> nat set" where
  "roots v = set (droots v)"

primrec reach :: "heap \<Rightarrow> gotype \<Rightarrow> val \<Rightarrow> nat set" where
  "reach h (TBasic b) v = {}"
| "reach h (TStruct ds ts) v =
     (case v of VStruct vs \<Rightarrow> \<Union> (set (map2 (\<lambda>f x. f x) (map (reach h) ts) vs)) | _ \<Rightarrow> {})"
| "reach h (TMap kt vt) v =
     (case v of
        VMap (Some r) \<Rightarrow>
          insert r
            (if r < length h
             then (\<Union>e \<in> set (h ! r). reach h kt (fst e) \<union> reach h vt (snd e)) else {})
      | _ \<Rightarrow> {})"
| "reach h (TPtr t) v = (case v of VPtr (Some x) \<Rightarrow> reach h t x | _ \<Rightarrow> {})"
| "reach h (TNamed n u) v = reach h u v"

primrec inner :: "heap \<Rightarrow> gotype \<Rightarrow> val \<Rightarrow> nat set" where
  "inner h (TBasic b) v = {}"
| "inner h (TStruct ds ts) v =
     (case v of VStruct vs \<Rightarrow> \<Union> (set (map2 (\<lambda>f x. f x) (map (inner h) ts) vs)) | _ \<Rightarrow> {})"
| "inner h (TMap kt vt) v =
     (case v of
        VMap (Some r) \<Rightarrow>
          (if r < length h
           then (\<Union>e \<in> set (h ! r). reach h kt (fst e) \<union> reach h vt (snd e)) else {})
      | _ \<Rightarrow> {})"
| "inner h (TPtr t) v = (case v of VPtr (Some x) \<Rightarrow> reach h t x | _ \<Rightarrow> {})"
| "inner h (TNamed n u) v = inner h u v"

text \<open>
  The target \<open>a\<close> of a merge owns its map objects: it holds each of them once, and none of
  them is reached from the source \<open>b\<close> or from an entry of \<open>a\<close>.
\<close>

definition owned :: "heap \<Rightarrow> gotype \<Rightarrow> val \<Rightarrow> val \<Rightarrow> bool" where
  "owned h ty a b =
     (distinct (droots a) \<and> roots a \<inter> (inner h ty a \<union> reach h ty b) = {})"

text \<open>
  \<open>frame X h h'\<close>: from \<open>h\<close> to \<open>h'\<close> objects were added, and of the objects of \<open>h\<close> only those
  in \<open>X\<close> were written to.
\<close>

definition frame :: "nat set \<Rightarrow> heap \<Rightarrow> heap \<Rightarrow> bool" where
  "frame X h h' = (length h \<le> length h' \<and> (\<forall>r < length h. r \<notin> X \<longrightarrow> h' ! r = h ! r))"

section \<open>Deep values\<close>

text \<open>
  \<open>absv h t v\<close> is the value of \<open>v\<close> with its maps read from the heap, a map being what a
  lookup of each key gives: what \<open>reflect.DeepEqual\<close> compares. A nil map (\<open>AMap None\<close>)
  differs from an empty one. \<open>nilfree\<close> forgets that difference.
\<close>

datatype aval = AScalar val | AStruct "aval list" | AMap "(val \<Rightarrow> aval option) option"

primrec absv :: "heap \<Rightarrow> gotype \<Rightarrow> val \<Rightarrow> aval" where
  "absv h (TBasic b) v = AScalar v"
| "absv h (TStruct ds ts) v =
     (case v of VStruct vs \<Rightarrow> AStruct (map2 (\<lambda>f x. f x) (map (absv h) ts) vs) | _ \<Rightarrow> AScalar v)"
| "absv h (TMap kt vt) v =
     (case v of
        VMap None \<Rightarrow> AMap None
      | VMap (Some r) \<Rightarrow> AMap (Some (map_option (absv h vt) \<circ> mapaccess (h ! r)))
      | _ \<Rightarrow> AScalar v)"
| "absv h (TPtr t) v = AScalar v"
| "absv h (TNamed n u) v = absv h u v"

text \<open>The deep entries of the map object \<open>r\<close>.\<close>

definition entries :: "heap \<Rightarrow> gotype \<Rightarrow> nat \<Rightarrow> val \<Rightarrow> aval option" where
  "entries h vt r = map_option (absv h vt) \<circ> mapaccess (h ! r)"

primrec nilfree :: "aval \<Rightarrow> aval" where
  "nilfree (AScalar v) = AScalar v"
| "nilfree (AStruct xs) = AStruct (map nilfree xs)"
| "nilfree (AMap m) =
     AMap (Some (case map_option (\<lambda>f. map_option nilfree \<circ> f) m of
                   None \<Rightarrow> Map.empty
                 | Some f \<Rightarrow> f))"

text \<open>
  The merge of deep values, the function that \<open>merge\<close> computes on the heap when the target
  owns its map objects (lemma \<open>merge_refines\<close> below). It serves the proofs only.
\<close>

fun amerge_list ::
  "(aval \<Rightarrow> aval \<Rightarrow> bool \<times> aval) list \<Rightarrow> aval list \<Rightarrow> aval list \<Rightarrow> bool \<times> aval list" where
  "amerge_list (f # fs) (x # xs) (y # ys) =
     (fst (f x y) \<or> fst (amerge_list fs xs ys), snd (f x y) # snd (amerge_list fs xs ys))"
| "amerge_list fs xs ys = (False, [])"

definition amerge_entry ::
  "(aval \<Rightarrow> aval \<Rightarrow> bool \<times> aval) \<Rightarrow> aval \<Rightarrow> aval option \<Rightarrow> aval option \<Rightarrow> bool \<times> aval option" where
  "amerge_entry f z x y =
     (case y of
        None \<Rightarrow> (False, x)
      | Some yv \<Rightarrow>
          (case x of
             None \<Rightarrow> (True, Some yv)
           | Some xv \<Rightarrow>
               (let r = f (snd (f z xv)) yv in (fst r, Some (if fst r then snd r else xv)))))"

primrec amerge :: "gotype \<Rightarrow> aval \<Rightarrow> aval \<Rightarrow> bool \<times> aval" where
  "amerge (TBasic b) x y =
     (case (x, y) of
        (AScalar u, AScalar v) \<Rightarrow>
          (case greater (TBasic b) v u of Inr True \<Rightarrow> (True, y) | _ \<Rightarrow> (False, x))
      | _ \<Rightarrow> (False, x))"
| "amerge (TStruct ds ts) x y =
     (case (x, y) of
        (AStruct xs, AStruct ys) \<Rightarrow>
          (let r = amerge_list (map amerge ts) xs ys in (fst r, AStruct (snd r)))
      | _ \<Rightarrow> (False, x))"
| "amerge (TMap kt vt) x y =
     (case (x, y) of
        (AMap mx, AMap my) \<Rightarrow>
          (case my of
             None \<Rightarrow> (False, x)
           | Some g \<Rightarrow>
               (let f = (case mx of None \<Rightarrow> Map.empty | Some f \<Rightarrow> f);
                    e = (\<lambda>k. amerge_entry (amerge vt) (absv [] vt (zero vt)) (f k) (g k))
                in ((\<exists>k. fst (e k)), AMap (Some (\<lambda>k. snd (e k))))))
      | _ \<Rightarrow> (False, x))"
| "amerge (TPtr t) x y = (False, x)"
| "amerge (TNamed n u) x y = amerge u x y"

text \<open>
  \<open>above_zero h t v\<close>: no scalar in \<open>v\<close>, at any depth, is below the zero value of its type
  or unordered with it: no negative number, no \<open>NaN\<close>, no negative zero.
\<close>

primrec above_zero :: "heap \<Rightarrow> gotype \<Rightarrow> val \<Rightarrow> bool" where
  "above_zero h (TBasic b) v =
     (case v of
        VInt x \<Rightarrow> 0 \<le> x
      | VFloat f \<Rightarrow> (case f of FFin r \<Rightarrow> 0 \<le> r | FPosInf \<Rightarrow> True | _ \<Rightarrow> False)
      | _ \<Rightarrow> True)"
| "above_zero h (TStruct ds ts) v =
     (case v of VStruct vs \<Rightarrow> list_all2 (\<lambda>p x. p x) (map (above_zero h) ts) vs | _ \<Rightarrow> True)"
| "above_zero h (TMap kt vt) v =
     (case v of
        VMap (Some r) \<Rightarrow> (\<forall>e \<in> set (h ! r). above_zero h vt (snd e))
      | _ \<Rightarrow> True)"
| "above_zero h (TPtr t) v = True"
| "above_zero h (TNamed n u) v = above_zero h u v"

text \<open>What the scratch value of the map branch holds after the first merge.\<close>

definition anorm :: "gotype \<Rightarrow> aval \<Rightarrow> aval" where
  "anorm ty x = snd (amerge ty (absv [] ty (zero ty)) x)"

text \<open>
  \<open>refines t m\<close>: on a target that owns its map objects, \<open>m\<close> returns, computes \<open>amerge t\<close>,
  writes to the target's own map objects only, and leaves a target that owns its objects.
\<close>

definition merged :: "gotype \<Rightarrow> val \<Rightarrow> val \<Rightarrow> heap \<Rightarrow> bool \<Rightarrow> val \<Rightarrow> heap \<Rightarrow> bool" where
  "merged ty a b h c a' h' =
     ((c, absv h' ty a') = amerge ty (absv h ty a) (absv h ty b)
      \<and> conforms h' ty a'
      \<and> frame (roots a) h h'
      \<and> roots a' \<subseteq> roots a \<union> {length h ..< length h'}
      \<and> distinct (droots a')
      \<and> roots a' \<inter> inner h' ty a' = {}
      \<and> inner h' ty a' \<subseteq> inner h ty a \<union> reach h ty b \<union> {length h ..< length h'})"

definition refines :: "gotype \<Rightarrow> mergefn \<Rightarrow> bool" where
  "refines ty m =
     (\<forall>a b h. conforms h ty a \<and> conforms h ty b \<and> owned h ty a b
        \<longrightarrow> (\<exists>c a' h'. m a b h = Inr (c, a', h') \<and> merged ty a b h c a' h'))"

section \<open>Keys of a map\<close>

text \<open>
  \<open>key_eq\<close> is symmetric and transitive, and reflexive on the keys that hold no \<open>NaN\<close>.
  On an object whose keys are pairwise different and hold no \<open>NaN\<close>, every entry is found
  under its key, and an assignment changes the entry of the equal keys only.
\<close>

lemma key_eq_sym: "key_eq a b \<Longrightarrow> key_eq b a"
  by (simp add: key_eq_def)

lemma key_eq_trans: "key_eq a b \<Longrightarrow> key_eq b c \<Longrightarrow> key_eq a c"
  by (simp add: key_eq_def)

lemma key_eq_refl: "\<not> has_nan a \<Longrightarrow> key_eq a a"
  by (simp add: key_eq_def)

lemma key_eq_left: "key_eq a b \<Longrightarrow> key_eq a c = key_eq b c"
  by (auto simp: key_eq_def)

lemma key_eq_right: "key_eq a b \<Longrightarrow> key_eq c a = key_eq c b"
  by (auto simp: key_eq_def)

lemma mapaccess_Nil [simp]: "mapaccess [] k = None"
  by (simp add: mapaccess_def)

lemma mapaccess_Cons:
  "mapaccess (e # es) k = (if key_eq (fst e) k then Some (snd e) else mapaccess es k)"
  by (simp add: mapaccess_def)

lemma mapaccess_key_eq: "key_eq k k' \<Longrightarrow> mapaccess al k = mapaccess al k'"
  by (induction al) (simp_all add: mapaccess_Cons key_eq_right)

lemma mapaccess_assign:
  "mapaccess (mapassign k v al) x = (if key_eq k x then Some v else mapaccess al x)"
proof (induction al)
  case Nil
  then show ?case by (simp add: mapaccess_Cons)
next
  case (Cons e es)
  show ?case
  proof (cases "key_eq (fst e) k")
    case True
    then show ?thesis using key_eq_left[OF True, of x] by (simp add: mapaccess_Cons)
  next
    case False
    have "\<not> (key_eq (fst e) x \<and> key_eq k x)"
      using False by (auto simp: key_eq_def)
    then show ?thesis using False Cons.IH by (auto simp: mapaccess_Cons)
  qed
qed

lemma mapaccess_SomeD: "mapaccess al k = Some v \<Longrightarrow> \<exists>k'. (k', v) \<in> set al \<and> key_eq k' k"
  by (induction al) (auto simp: mapaccess_Cons split: if_splits)

lemma mapaccess_None_iff: "mapaccess al k = None \<longleftrightarrow> (\<forall>e \<in> set al. \<not> key_eq (fst e) k)"
  by (induction al) (auto simp: mapaccess_Cons)

lemma keys_ok_Cons:
  "keys_ok (e # es) \<longleftrightarrow> \<not> has_nan (fst e) \<and> (\<forall>x \<in> set es. \<not> key_eq (fst x) (fst e)) \<and> keys_ok es"
proof -
  have "knorm (fst e) \<in> (knorm \<circ> fst) ` set es \<longleftrightarrow> (\<exists>x \<in> set es. knorm (fst x) = knorm (fst e))"
    unfolding image_iff comp_def by metis
  then show ?thesis
    unfolding keys_ok_def key_eq_def by (simp del: image_comp) blast
qed

lemma mapaccess_mem: "keys_ok al \<Longrightarrow> (k, v) \<in> set al \<Longrightarrow> mapaccess al k = Some v"
proof (induction al)
  case Nil
  then show ?case by simp
next
  case (Cons e es)
  from Cons.prems(1) have ne: "\<not> has_nan (fst e)" and d: "\<forall>x \<in> set es. \<not> key_eq (fst x) (fst e)"
    and ok: "keys_ok es" by (simp_all add: keys_ok_Cons)
  show ?case
  proof (cases "e = (k, v)")
    case True
    then show ?thesis using ne by (simp add: mapaccess_Cons key_eq_refl)
  next
    case False
    with Cons.prems(2) have m: "(k, v) \<in> set es" by simp
    with d have "\<not> key_eq k (fst e)" by auto
    then have "\<not> key_eq (fst e) k" using key_eq_sym by blast
    then show ?thesis using Cons.IH[OF ok m] by (simp add: mapaccess_Cons)
  qed
qed

lemma set_mapassign_subset: "set (mapassign k v al) \<subseteq> insert (k, v) (set al)"
  by (induction al) auto

lemma keys_ok_mapassign: "keys_ok al \<Longrightarrow> \<not> has_nan k \<Longrightarrow> keys_ok (mapassign k v al)"
proof (induction al)
  case Nil
  then show ?case by (simp add: keys_ok_def)
next
  case (Cons e es)
  show ?case
  proof (cases "key_eq (fst e) k")
    case True
    then show ?thesis using Cons.prems by (auto simp: keys_ok_Cons key_eq_right)
  next
    case False
    have "\<not> key_eq (fst x) (fst e)" if "x \<in> set (mapassign k v es)" for x
    proof -
      from that set_mapassign_subset[of k v es] have "x = (k, v) \<or> x \<in> set es" by auto
      then show ?thesis
      proof
        assume "x = (k, v)"
        then show ?thesis using False key_eq_sym by auto
      next
        assume "x \<in> set es"
        then show ?thesis using Cons.prems(1) by (simp add: keys_ok_Cons)
      qed
    qed
    then show ?thesis using False Cons by (auto simp: keys_ok_Cons)
  qed
qed

lemma keys_ok_distinct: "keys_ok al \<Longrightarrow> distinct (map fst al)"
  unfolding keys_ok_def using distinct_map[of "knorm \<circ> fst" al] distinct_map[of fst al]
  by (auto simp: inj_on_def)

section \<open>Scalars\<close>

lemma merge_basic:
  assumes "conforms h (TBasic k) a" and "conforms h (TBasic k) b"
  shows "merge mt (TBasic k) a b h =
           Inr (natural_less a b, if natural_less a b then b else a, h)"
  using assms
  by (cases k) (auto simp: merge_ordered_def greater_def split: val.splits)


text \<open>
  C4, as stated, fails on a defined type of an ordered kind that has no \<open>Merge\<close> method,
  such as \<open>type MyInt int\<close>: it passes \<open>isOrdered\<close>, which looks at the kind, and reaches
  the \<open>default\<close> case of the type switch of \<open>greater\<close>, which looks at the type. \<open>Merge\<close>
  panics, as the package comment says it does for a type that is not one of
  \<open>bool, string, u?int{,8,16,32,64}, float{32,64}\<close>.
\<close>

theorem defined_scalar_merge_panics:
  "isOrdered (kind_of (TNamed ''MyInt'' (TBasic (BInt K_int))))
   \<and> Merge no_methods (TPtr (TNamed ''MyInt'' (TBasic (BInt K_int))), VPtr (Some (VInt 3)))
         (TNamed ''MyInt'' (TBasic (BInt K_int)), VInt 5) []
       = Inl CannotCompare"
  by (simp add: Merge_def no_methods_def merge_ordered_def greater_def)



text \<open>
  A defined type of an ordered kind that has no \<open>Merge\<close> method, such as
  \<open>type Celsius float64\<close>, passes \<open>isOrdered\<close> and then reaches the \<open>default\<close> case of the
  type switch of \<open>greater\<close>.
\<close>

lemma defined_scalar_panics:
  assumes "mt (TNamed n (TBasic b)) = None"
  shows "merge mt (TNamed n (TBasic b)) a v h = Inl CannotCompare"
  using assms by (cases b) (simp_all add: merge_ordered_def greater_def)

section \<open>The zero value and negative numbers\<close>

text \<open>
  C1. The package comment promises \<open>Join(a, zero) == a\<close> for any value \<open>a\<close>. The code compares
  with the natural ordering, in which a negative number is below zero:
  \<open>Join(int(-1), int(0))\<close> is \<open>0\<close>.
\<close>

theorem join_zero_negative_int:
  "Join no_methods (TBasic (BInt K_int), VInt (- 1))
        (TBasic (BInt K_int), zero (TBasic (BInt K_int))) []
     = Inr ((TBasic (BInt K_int), VInt 0), [])"
  by (simp add: Join_def join_def merge_ordered_def greater_def)

text \<open>
  C3. For the same reason the old entry of a map wins over a new one when both are negative:
  joining \<open>map[int]int{1: -1}\<close> and \<open>map[int]int{1: -2}\<close> gives \<open>{1: -1}\<close> in one order and
  \<open>{1: -2}\<close> in the other.
\<close>

theorem join_negative_map_entries:
  "Join no_methods
        (TMap (TBasic (BInt K_int)) (TBasic (BInt K_int)), VMap (Some 0))
        (TMap (TBasic (BInt K_int)) (TBasic (BInt K_int)), VMap (Some 1))
        [[(VInt 1, VInt (- 1))], [(VInt 1, VInt (- 2))]]
     = Inr ((TMap (TBasic (BInt K_int)) (TBasic (BInt K_int)), VMap (Some 2)),
            [[(VInt 1, VInt (- 1))], [(VInt 1, VInt (- 2))], [(VInt 1, VInt (- 1))]])
   \<and> Join no_methods
        (TMap (TBasic (BInt K_int)) (TBasic (BInt K_int)), VMap (Some 1))
        (TMap (TBasic (BInt K_int)) (TBasic (BInt K_int)), VMap (Some 0))
        [[(VInt 1, VInt (- 1))], [(VInt 1, VInt (- 2))]]
     = Inr ((TMap (TBasic (BInt K_int)) (TBasic (BInt K_int)), VMap (Some 2)),
            [[(VInt 1, VInt (- 1))], [(VInt 1, VInt (- 2))], [(VInt 1, VInt (- 2))]])"
  by (simp add: Join_def join_def merge_map_def MapKeys_def MapIndex_def SetMapIndex_def
      mapaccess_def key_eq_def merge_ordered_def greater_def)

section \<open>The Merger interface\<close>

text \<open>
  C6. When the type of \<open>a\<close> has the \<open>Merge\<close> method, \<open>Merge(&a, b)\<close> is the result of that method
  and of nothing else, whatever the type is: a defined type of any underlying type, or a
  struct type, which has the methods of its embedded fields (the types that can have
  methods).
\<close>

theorem custom_merge_exclusive:
  assumes "mt ty = Some f" and "ty = TNamed n u \<or> ty = TStruct ds ts"
  shows "Merge mt (TPtr ty, VPtr (Some a)) (ty, b) h = f a b h"
  using assms by (auto simp: Merge_def)

text \<open>
  The cases of \<open>TestMergeMerger\<close>; and a struct that embeds \<open>decreasingInt\<close>: the promoted
  method is called, its type assertion fails on the struct it is given, and the fields are
  not looked at (the engine would panic on the unexported field).
\<close>

theorem custom_merge_exclusive_witness:
  "test_methods decreasingInt = Some decreasingInt_Merge
   \<and> (decreasingInt = TNamed ''decreasingInt'' (TBasic (BInt K_int))
        \<or> decreasingInt = TStruct [] [])
   \<and> Merge test_methods (TPtr decreasingInt, VPtr (Some (VInt 3))) (decreasingInt, VInt 5) []
       = Inr (False, VInt 3, [])
   \<and> Merge test_methods (TPtr decreasingInt, VPtr (Some (VInt 3))) (decreasingInt, VInt 1) []
       = Inr (True, VInt 1, [])
   \<and> embedding_methods embedsDecreasingInt = Some promoted_Merge
   \<and> (embedsDecreasingInt = TNamed [] (TBasic BBool)
        \<or> embedsDecreasingInt = TStruct [(''decreasingInt'', ''crdt'')] [decreasingInt])
   \<and> Merge embedding_methods (TPtr embedsDecreasingInt, VPtr (Some (VStruct [VInt 3])))
         (embedsDecreasingInt, VStruct [VInt 1]) []
       = Inl MergerPanic"
  using custom_merge_exclusive[where mt = test_methods and ty = decreasingInt
      and f = decreasingInt_Merge and n = "''decreasingInt''" and u = "TBasic (BInt K_int)"
      and ds = "[]" and ts = "[]" and a = "VInt 3" and b = "VInt 5" and h = "[]"]
    custom_merge_exclusive[where mt = test_methods and ty = decreasingInt
      and f = decreasingInt_Merge and n = "''decreasingInt''" and u = "TBasic (BInt K_int)"
      and ds = "[]" and ts = "[]" and a = "VInt 3" and b = "VInt 1" and h = "[]"]
    custom_merge_exclusive[where mt = embedding_methods and ty = embedsDecreasingInt
      and f = promoted_Merge and n = "[]" and u = "TBasic BBool"
      and ds = "[(''decreasingInt'', ''crdt'')]" and ts = "[decreasingInt]"
      and a = "VStruct [VInt 3]" and b = "VStruct [VInt 1]" and h = "[]"]
  by (simp add: test_methods_def embedding_methods_def decreasingInt_def embedsDecreasingInt_def
      decreasingInt_Merge_def promoted_Merge_def)

section \<open>Precondition violations\<close>

text \<open>
  C8. \<open>Merge\<close> panics when its first argument is not a pointer, and when the pointer's element
  type is not the type of the second argument; \<open>Join\<close> panics when the types of its arguments
  differ. The result is the panic alone: no value and no heap.
\<close>

theorem precondition_violations_fatal:
  "(kind_of (fst a) \<noteq> KPtr \<longrightarrow> Merge mt a b h = Inl NotAPointer)
   \<and> (kind_of (fst a) = KPtr \<and> elem (fst a) \<noteq> Some (fst b)
        \<longrightarrow> Merge mt a b h = Inl TypeMismatch \<or> Merge mt a b h = Inl ReflectPanic)
   \<and> (fst a \<noteq> fst b \<longrightarrow> Join mt a b h = Inl TypeMismatch)"
  by (auto simp: Merge_def Join_def split: option.splits val.splits)

theorem precondition_violations_fatal_witness:
  "Merge no_methods (TBasic (BInt K_int), VInt 3) (TBasic (BInt K_int), VInt 5) [] = Inl NotAPointer
   \<and> Merge no_methods (TPtr (TBasic (BInt K_int)), VPtr (Some (VInt 3)))
        (TBasic (BInt K_int64), VInt 5) [] = Inl TypeMismatch
   \<and> Join no_methods (TBasic (BInt K_int), VInt 3) (TBasic (BInt K_int64), VInt 5) []
        = Inl TypeMismatch"
  using precondition_violations_fatal[where a = "(TBasic (BInt K_int), VInt 3)"
      and mt = no_methods and b = "(TBasic (BInt K_int), VInt 5)" and h = "[]"]
    precondition_violations_fatal[where a = "(TPtr (TBasic (BInt K_int)), VPtr (Some (VInt 3)))"
      and mt = no_methods and b = "(TBasic (BInt K_int64), VInt 5)" and h = "[]"]
    precondition_violations_fatal[where a = "(TBasic (BInt K_int), VInt 3)"
      and mt = no_methods and b = "(TBasic (BInt K_int64), VInt 5)" and h = "[]"]
  by (simp add: Merge_def)

section \<open>The nil map\<close>

text \<open>
  C10. When the target is a nil map and the source an empty map that is not nil, \<open>Merge\<close> sets
  the target to a new empty map and returns false.
\<close>

theorem nil_map_instantiated_unreported:
  assumes "r < length h" and "h ! r = []"
    and "ty = TMap kt vt \<or> (ty = TNamed n (TMap kt vt) \<and> mt ty = None)"
  shows "Merge mt (TPtr ty, VPtr (Some (VMap None))) (ty, VMap (Some r)) h
           = Inr (False, VMap (Some (length h)), h @ [[]])"
  using assms
  by (auto simp: Merge_def merge_map_def MapKeys_def nth_append)

theorem nil_map_instantiated_unreported_witness:
  "(0::nat) < length [[]::(val \<times> val) list] \<and> [[]::(val \<times> val) list] ! 0 = []
   \<and> no_methods (TNamed ''A'' (TMap (TBasic (BInt K_int)) (TBasic (BInt K_int)))) = None
   \<and> Merge no_methods
        (TPtr (TNamed ''A'' (TMap (TBasic (BInt K_int)) (TBasic (BInt K_int)))),
         VPtr (Some (VMap None)))
        (TNamed ''A'' (TMap (TBasic (BInt K_int)) (TBasic (BInt K_int))), VMap (Some 0)) [[]]
       = Inr (False, VMap (Some 1), [[], []])"
  using nil_map_instantiated_unreported[where r = 0 and h = "[[]]"
      and ty = "TNamed ''A'' (TMap (TBasic (BInt K_int)) (TBasic (BInt K_int)))"
      and kt = "TBasic (BInt K_int)" and vt = "TBasic (BInt K_int)" and n = "''A''"
      and mt = no_methods]
  by (simp add: no_methods_def)

section \<open>Frames and reachable objects\<close>

text \<open>
  A value that conforms to its type reaches objects of the heap only, and nothing about it
  changes when the heap changes outside the objects it reaches (\<open>stable\<close>).
\<close>

lemma frame_refl: "frame X h h"
  by (simp add: frame_def)

lemma frame_mono: "frame X h h' \<Longrightarrow> X \<subseteq> Y \<Longrightarrow> frame Y h h'"
  by (auto simp: frame_def)

lemma frame_trans:
  assumes "frame X h h1" and "frame Y h1 h2" and "Y \<inter> {..<length h} \<subseteq> X"
  shows "frame X h h2"
  unfolding frame_def
proof (intro conjI allI impI)
  show "length h \<le> length h2"
    using assms(1,2) by (simp add: frame_def)
next
  fix r
  assume r: "r < length h" and x: "r \<notin> X"
  from r x assms(3) have "r \<notin> Y" by auto
  moreover from r assms(1) have "r < length h1" by (simp add: frame_def)
  ultimately have "h2 ! r = h1 ! r" using assms(2) by (simp add: frame_def)
  also have "h1 ! r = h ! r" using assms(1) r x by (simp add: frame_def)
  finally show "h2 ! r = h ! r" .
qed

lemma map2_app [simp]: "map2 (\<lambda>f x. f x) (map F ts) vs = map2 F ts vs"
proof (induction ts arbitrary: vs)
  case Nil
  then show ?case by simp
next
  case (Cons t ts)
  show ?case
  proof (cases vs)
    case Nil
    then show ?thesis by simp
  next
    case (Cons v vs')
    then show ?thesis using Cons.IH[of vs'] by simp
  qed
qed

lemma list_all2_app [simp]: "list_all2 (\<lambda>p x. p x) (map F ts) vs = list_all2 F ts vs"
proof (induction ts arbitrary: vs)
  case Nil
  then show ?case by simp
next
  case (Cons t ts)
  show ?case
  proof (cases vs)
    case Nil
    then show ?thesis by simp
  next
    case (Cons v vs')
    then show ?thesis using Cons.IH[of vs'] by simp
  qed
qed

lemma roots_struct [simp]: "roots (VStruct vs) = (\<Union>v \<in> set vs. roots v)"
  by (simp add: roots_def)

lemma roots_map [simp]: "roots (VMap m) = set_option m"
  by (cases m) (simp_all add: roots_def)

lemma roots_scalar [simp]:
  "roots (VBool x) = {}" "roots (VInt i) = {}" "roots (VUint n) = {}" "roots (VFloat f) = {}"
  "roots (VString s) = {}" "roots (VPtr p) = {}"
  by (simp_all add: roots_def)

lemma conforms_reach_bound:
  "conforms h ty v \<Longrightarrow> reach h ty v \<subseteq> {..<length h}"
proof (induction ty arbitrary: v)
  case (TStruct ds ts)
  then obtain vs where v: "v = VStruct vs" and l: "list_all2 (conforms h) ts vs"
    by (auto split: val.splits)
  from l TStruct.IH have "\<Union> (set (map2 (reach h) ts vs)) \<subseteq> {..<length h}"
    by (induction ts vs rule: list_all2_induct) auto
  then show ?case using v by simp
next
  case (TMap kt vt)
  then show ?case by (fastforce split: val.splits option.splits)
qed (auto split: val.splits option.splits)

lemma conforms_reach:
  "conforms h ty v \<Longrightarrow> reach h ty v = roots v \<union> inner h ty v"
proof (induction ty arbitrary: v)
  case (TBasic b)
  then show ?case by (cases b; cases v) simp_all
next
  case (TStruct ds ts)
  then obtain vs where v: "v = VStruct vs" and l: "list_all2 (conforms h) ts vs"
    by (auto split: val.splits)
  from l TStruct.IH have "\<Union> (set (map2 (reach h) ts vs)) = (\<Union>v \<in> set vs. roots v) \<union> \<Union> (set (map2 (inner h) ts vs))"
    by (induction ts vs rule: list_all2_induct) auto
  then show ?case using v by simp
next
  case (TMap kt vt)
  then show ?case by (cases v) (auto split: option.splits)
next
  case (TPtr t)
  then show ?case by (cases v) (auto split: option.splits)
next
  case (TNamed n u)
  then show ?case by simp
qed

lemma stable:
  assumes "conforms h ty v" and "frame X h h'" and "reach h ty v \<inter> X = {}"
  shows "conforms h' ty v \<and> absv h' ty v = absv h ty v
         \<and> reach h' ty v = reach h ty v \<and> inner h' ty v = inner h ty v"
  using assms
proof (induction ty arbitrary: v)
  case (TBasic b)
  then show ?case by simp
next
  case (TStruct ds ts)
  then obtain vs where v: "v = VStruct vs" and l: "list_all2 (conforms h) ts vs"
    by (auto split: val.splits)
  from TStruct.prems(3) v have d: "\<Union> (set (map2 (reach h) ts vs)) \<inter> X = {}"
    by simp
  from l d TStruct.IH TStruct.prems(2)
  have "list_all2 (conforms h') ts vs \<and> map2 (absv h') ts vs = map2 (absv h) ts vs
        \<and> map2 (reach h') ts vs = map2 (reach h) ts vs
        \<and> map2 (inner h') ts vs = map2 (inner h) ts vs"
  proof (induction ts vs rule: list_all2_induct)
    case Nil
    then show ?case by simp
  next
    case (Cons t ts x xs)
    have 1: "reach h t x \<inter> X = {}" and 2: "\<Union> (set (map2 (reach h) ts xs)) \<inter> X = {}"
      using Cons.prems(1) by auto
    have "conforms h' t x \<and> absv h' t x = absv h t x
         \<and> reach h' t x = reach h t x \<and> inner h' t x = inner h t x"
      using Cons.prems(2)[of t x] Cons.hyps(1) Cons.prems(3) 1 by simp
    moreover have "list_all2 (conforms h') ts xs \<and> map2 (absv h') ts xs = map2 (absv h) ts xs
        \<and> map2 (reach h') ts xs = map2 (reach h) ts xs
        \<and> map2 (inner h') ts xs = map2 (inner h) ts xs"
      using Cons.IH[OF 2 _ Cons.prems(3)] Cons.prems(2) by simp
    ultimately show ?case by simp
  qed
  then show ?case using v by simp
next
  case (TMap kt vt)
  show ?case
  proof (cases v)
    case (VMap m)
    show ?thesis
    proof (cases m)
      case None
      then show ?thesis using VMap by simp
    next
      case (Some r)
      from TMap.prems Some VMap have r: "r < length h" "r \<notin> X"
        and es: "\<forall>e \<in> set (h ! r). conforms h kt (fst e) \<and> conforms h vt (snd e)"
        and dk: "keys_ok (h ! r)"
        by auto
      from r TMap.prems(2) have eq: "h' ! r = h ! r" and r': "r < length h'"
        by (auto simp: frame_def)
      have ent: "conforms h' kt (fst e) \<and> reach h' kt (fst e) = reach h kt (fst e)
          \<and> conforms h' vt (snd e) \<and> absv h' vt (snd e) = absv h vt (snd e)
          \<and> reach h' vt (snd e) = reach h vt (snd e)" if "e \<in> set (h ! r)" for e
      proof -
        from that TMap.prems(3) Some VMap r have "reach h kt (fst e) \<inter> X = {}"
          and "reach h vt (snd e) \<inter> X = {}" by auto
        with TMap.IH(1)[of "fst e"] TMap.IH(2)[of "snd e"] es that TMap.prems(2)
        show ?thesis by simp
      qed
      have "map_option (absv h' vt) \<circ> mapaccess (h ! r) = map_option (absv h vt) \<circ> mapaccess (h ! r)"
      proof
        fix k
        show "(map_option (absv h' vt) \<circ> mapaccess (h ! r)) k = (map_option (absv h vt) \<circ> mapaccess (h ! r)) k"
        proof (cases "mapaccess (h ! r) k")
          case None
          then show ?thesis by simp
        next
          case (Some x)
          then obtain k' where "(k', x) \<in> set (h ! r)" using mapaccess_SomeD by blast
          with ent[of "(k', x)"] Some show ?thesis by simp
        qed
      qed
      with ent eq r r' dk Some VMap show ?thesis by simp
    qed
  qed (use TMap.prems in simp_all)
next
  case (TPtr t)
  then show ?case by (cases v) (auto split: option.splits)
next
  case (TNamed n u)
  then show ?case by simp
qed

section \<open>The engine computes the merge of deep values\<close>

text \<open>
  The scalar branch, the loop over the fields, the loop over the keys and the map branch
  each refine \<open>amerge\<close>, given that the merges of the parts do; \<open>merge_refines\<close> puts them
  together by induction on the type.
\<close>

lemma greater_scalar:
  "greater ty b a = Inr g \<Longrightarrow> roots b = {} \<and> droots b = []"
  by (auto simp: greater_def split: gotype.splits basic.splits val.splits)

lemma refines_basic: "refines (TBasic k) (merge_ordered (TBasic k))"
  unfolding refines_def merged_def
proof (intro allI impI, elim conjE)
  fix a b h
  assume a: "conforms h (TBasic k) a" and b: "conforms h (TBasic k) b"
  have m: "merge_ordered (TBasic k) a b h = Inr (natural_less a b, if natural_less a b then b else a, h)"
    using merge_basic[OF a b, of "\<lambda>_. None"] by simp
  have g: "greater (TBasic k) b a = Inr (natural_less a b)"
    using a b by (cases k) (auto simp: greater_def split: val.splits)
  have r: "roots a = {}" "roots b = {}" "droots a = []" "droots b = []"
    using a b by (cases k; cases a; cases b; simp)+
  show "\<exists>c a' h'. merge_ordered (TBasic k) a b h = Inr (c, a', h') \<and>
          (c, absv h' (TBasic k) a') = amerge (TBasic k) (absv h (TBasic k) a) (absv h (TBasic k) b) \<and>
          conforms h' (TBasic k) a' \<and> frame (roots a) h h' \<and>
          roots a' \<subseteq> roots a \<union> {length h..<length h'} \<and> distinct (droots a') \<and>
          roots a' \<inter> inner h' (TBasic k) a' = {} \<and>
          inner h' (TBasic k) a' \<subseteq> inner h (TBasic k) a \<union> reach h (TBasic k) b \<union> {length h..<length h'}"
    using m g a b r by (auto simp: frame_refl)
qed

lemma droots_struct_cons [simp]:
  "droots (VStruct (a # as)) = droots a @ droots (VStruct as)"
  by simp

lemma merge_fields_refines:
  assumes "\<forall>t \<in> set ts. refines t (M t)"
    and "length ds = length ts" and "\<forall>d \<in> set ds. snd d = []"
    and "conforms h (TStruct ds ts) (VStruct as)"
    and "conforms h (TStruct ds ts) (VStruct bs)"
    and "owned h (TStruct ds ts) (VStruct as) (VStruct bs)"
  shows "\<exists>c as' h'. merge_fields ds (map M ts) as bs h = Inr (c, as', h')
           \<and> merged (TStruct ds ts) (VStruct as) (VStruct bs) h c (VStruct as') h'"
  using assms
proof (induction ts arbitrary: ds as bs h)
  case Nil
  then show ?case
    by (auto simp: merged_def frame_refl)
next
  case (Cons t ts)
  from Cons.prems(2) obtain d ds' where ds: "ds = d # ds'" and lds: "length ds' = length ts"
    by (cases ds) auto
  from Cons.prems(4) obtain a as' where as: "as = a # as'"
    and ca: "conforms h t a" and cas: "conforms h (TStruct ds' ts) (VStruct as')"
    by (cases as) auto
  from Cons.prems(5) obtain b bs' where bs: "bs = b # bs'"
    and cb: "conforms h t b" and cbs: "conforms h (TStruct ds' ts) (VStruct bs')"
    by (cases bs) auto
  define T' where "T' = TStruct ds' ts"
  define A' where "A' = VStruct as'"
  define B' where "B' = VStruct bs'"
  note cas = cas[folded T'_def A'_def] and cbs = cbs[folded T'_def B'_def]
  define R1 where "R1 = roots a"
  define Rr where "Rr = roots A'"
  define I1 where "I1 = inner h t a"
  define Ir where "Ir = inner h T' A'"
  define B1 where "B1 = reach h t b"
  define Br where "Br = reach h T' B'"
  define Old where "Old = {..<length h}"
  have own: "distinct (droots a)" "distinct (droots A')" "R1 \<inter> Rr = {}"
    "(R1 \<union> Rr) \<inter> (I1 \<union> Ir \<union> B1 \<union> Br) = {}"
    using Cons.prems(6)
    unfolding owned_def as bs R1_def Rr_def I1_def Ir_def B1_def Br_def roots_def T'_def A'_def B'_def
    by (auto simp del: droots.simps(2) simp: Int_Un_distrib Int_Un_distrib2)
  have old: "R1 \<union> I1 \<subseteq> Old" "Rr \<union> Ir \<subseteq> Old" "B1 \<subseteq> Old" "Br \<subseteq> Old"
    using conforms_reach_bound[OF ca] conforms_reach[OF ca]
      conforms_reach_bound[OF cas] conforms_reach[OF cas]
      conforms_reach_bound[OF cb] conforms_reach_bound[OF cbs]
    unfolding R1_def Rr_def I1_def Ir_def B1_def Br_def Old_def by auto
  have own1: "owned h t a b"
    using own unfolding owned_def R1_def I1_def B1_def by auto
  from Cons.prems(1) have "refines t (M t)" by simp
  with ca cb own1 obtain c1 a1 h1 where m1: "M t a b h = Inr (c1, a1, h1)"
    and p1: "merged t a b h c1 a1 h1"
    unfolding refines_def by blast
  define F1 where "F1 = {length h ..< length h1}"
  from p1 have e1: "amerge t (absv h t a) (absv h t b) = (c1, absv h1 t a1)"
    and k1: "conforms h1 t a1" and f1: "frame R1 h h1"
    and r1: "roots a1 \<subseteq> R1 \<union> F1" and d1: "distinct (droots a1)"
    and o1: "roots a1 \<inter> inner h1 t a1 = {}"
    and i1: "inner h1 t a1 \<subseteq> I1 \<union> B1 \<union> F1"
    unfolding merged_def R1_def I1_def B1_def F1_def by simp_all
  have sa: "reach h T' A' \<inter> R1 = {}"
    using conforms_reach[OF cas] own(3,4) unfolding Rr_def Ir_def by auto
  have sb: "reach h T' B' \<inter> R1 = {}"
    using own(4) unfolding Br_def by auto
  from stable[OF cas f1 sa] have sta: "conforms h1 T' A'" "absv h1 T' A' = absv h T' A'"
    "reach h1 T' A' = reach h T' A'" "inner h1 T' A' = inner h T' A'" by blast+
  from stable[OF cbs f1 sb] have stb: "conforms h1 T' B'" "absv h1 T' B' = absv h T' B'"
    "reach h1 T' B' = reach h T' B'" "inner h1 T' B' = inner h T' B'" by blast+
  have own2: "owned h1 T' A' B'"
    unfolding owned_def sta stb using own(2,4) unfolding Rr_def Ir_def Br_def by auto
  from Cons.prems(1) have ih1: "\<forall>t \<in> set ts. refines t (M t)" by simp
  from Cons.prems(3) ds have ih3: "\<forall>d \<in> set ds'. snd d = []" and d0: "snd d = []" by simp_all
  from Cons.IH[OF ih1 lds ih3, of h1 as' bs'] sta(1) stb(1) own2
  obtain c2 as2 h2 where m2: "merge_fields ds' (map M ts) as' bs' h1 = Inr (c2, as2, h2)"
    and p2: "merged T' A' B' h1 c2 (VStruct as2) h2"
    unfolding T'_def A'_def B'_def by blast
  define A2 where "A2 = VStruct as2"
  define F2 where "F2 = {length h1 ..< length h2}"
  from p2[unfolded merged_def sta stb, folded A2_def]
  have e2: "amerge T' (absv h T' A') (absv h T' B') = (c2, absv h2 T' A2)"
    and k2: "conforms h2 T' A2" and f2: "frame Rr h1 h2"
    and r2: "roots A2 \<subseteq> Rr \<union> F2" and d2: "distinct (droots A2)"
    and o2: "roots A2 \<inter> inner h2 T' A2 = {}"
    and i2: "inner h2 T' A2 \<subseteq> Ir \<union> Br \<union> F2"
    unfolding Rr_def Ir_def Br_def F2_def by simp_all
  have len: "length h \<le> length h1" "length h1 \<le> length h2"
    using f1 f2 by (simp_all add: frame_def)
  have fr: "F1 \<inter> Old = {}" "F2 \<inter> Old = {}" "F1 \<inter> F2 = {}"
    "F1 \<union> F2 = {length h ..< length h2}"
    using len unfolding F1_def F2_def Old_def by auto
  have s1: "reach h1 t a1 \<inter> Rr = {}"
    using conforms_reach[OF k1] r1 i1 own(3,4) old fr by blast
  from stable[OF k1 f2 s1] have st1: "conforms h2 t a1" "absv h2 t a1 = absv h1 t a1"
    "inner h2 t a1 = inner h1 t a1" by blast+
  have res: "merge_fields ds (map M (t # ts)) as bs h = Inr (c1 \<or> c2, a1 # as2, h2)"
    using m1 m2 d0 by (simp add: ds as bs)
  have c1: "(c1 \<or> c2, absv h2 (TStruct ds (t # ts)) (VStruct (a1 # as2)))
      = amerge (TStruct ds (t # ts)) (absv h (TStruct ds (t # ts)) (VStruct as))
          (absv h (TStruct ds (t # ts)) (VStruct bs))"
    using e1 e2 st1(2) unfolding T'_def A'_def B'_def A2_def
    by (simp add: as bs Let_def split: prod.splits)
  have c2: "conforms h2 (TStruct ds (t # ts)) (VStruct (a1 # as2))"
    using st1(1) k2 unfolding T'_def A2_def by simp
  have rs: "roots (VStruct as) = R1 \<union> Rr" "roots (VStruct (a1 # as2)) = roots a1 \<union> roots A2"
    unfolding as R1_def Rr_def A'_def A2_def by simp_all
  have c3: "frame (roots (VStruct as)) h h2"
    unfolding frame_def
  proof (intro conjI allI impI)
    show "length h \<le> length h2" using len by simp
  next
    fix r assume r: "r < length h" and n: "r \<notin> roots (VStruct as)"
    then have "r \<notin> R1" "r \<notin> Rr" unfolding rs by auto
    then show "h2 ! r = h ! r" using f1 f2 r len by (simp add: frame_def)
  qed
  have c4: "roots (VStruct (a1 # as2)) \<subseteq> roots (VStruct as) \<union> {length h ..< length h2}"
    unfolding rs using r1 r2 fr(4) by blast
  have c5: "distinct (droots (VStruct (a1 # as2)))"
  proof -
    have "roots a1 \<inter> roots A2 = {}"
      using r1 r2 own(3) old fr by blast
    then show ?thesis using d1 d2 unfolding roots_def A2_def by (simp del: droots.simps(2))
  qed
  have in2: "inner h2 (TStruct ds (t # ts)) (VStruct (a1 # as2)) = inner h1 t a1 \<union> inner h2 T' A2"
    using st1(3) unfolding T'_def A2_def by simp
  have c6: "roots (VStruct (a1 # as2)) \<inter> inner h2 (TStruct ds (t # ts)) (VStruct (a1 # as2)) = {}"
  proof -
    have "roots a1 \<inter> inner h2 T' A2 = {}"
      using r1 i2 own(4) old fr by blast
    moreover have "roots A2 \<inter> inner h1 t a1 = {}"
      using r2 i1 own(4) old fr by blast
    ultimately show ?thesis using o1 o2 unfolding in2 rs by blast
  qed
  have c7: "inner h2 (TStruct ds (t # ts)) (VStruct (a1 # as2))
      \<subseteq> inner h (TStruct ds (t # ts)) (VStruct as) \<union> reach h (TStruct ds (t # ts)) (VStruct bs)
          \<union> {length h ..< length h2}"
  proof -
    have "inner h (TStruct ds (t # ts)) (VStruct as) = I1 \<union> Ir"
      unfolding as I1_def Ir_def T'_def A'_def by simp
    moreover have "reach h (TStruct ds (t # ts)) (VStruct bs) = B1 \<union> Br"
      unfolding bs B1_def Br_def T'_def B'_def by simp
    ultimately show ?thesis using in2 i1 i2 fr(4) by blast
  qed
  show ?case
    using res c1 c2 c3 c4 c5 c6 c7 unfolding merged_def by blast
qed

lemma refines_struct:
  assumes "\<forall>t \<in> set ts. refines t (M t)"
    and "length ds = length ts" and "\<forall>d \<in> set ds. snd d = []"
  shows "refines (TStruct ds ts) (merge_struct ds (map M ts))"
  unfolding refines_def
proof (intro allI impI, elim conjE)
  fix a b h
  assume ca: "conforms h (TStruct ds ts) a" and cb: "conforms h (TStruct ds ts) b"
    and ow: "owned h (TStruct ds ts) a b"
  from ca obtain as where a: "a = VStruct as" by (cases a) simp_all
  from cb obtain bs where b: "b = VStruct bs" by (cases b) simp_all
  from merge_fields_refines[OF assms ca[unfolded a] cb[unfolded b] ow[unfolded a b]]
  obtain c as' h' where "merge_fields ds (map M ts) as bs h = Inr (c, as', h')"
    and "merged (TStruct ds ts) (VStruct as) (VStruct bs) h c (VStruct as') h'"
    by blast
  then show "\<exists>c a' h'. merge_struct ds (map M ts) a b h = Inr (c, a', h')
      \<and> merged (TStruct ds ts) a b h c a' h'"
    unfolding a b by (simp add: merge_struct_def)
qed

lemma list_all2_map_same: "(\<And>t. t \<in> set ts \<Longrightarrow> P t (f t)) \<Longrightarrow> list_all2 P ts (map f ts)"
  by (induction ts) simp_all

lemma conforms_zero: "conforms h ty (zero ty)"
proof (induction ty)
  case (TBasic b)
  then show ?case by (cases b) simp_all
next
  case (TStruct ds ts)
  then show ?case by (simp add: list_all2_map_same)
qed simp_all

lemma droots_zero: "droots (zero ty) = []"
proof (induction ty)
  case (TBasic b)
  then show ?case by (cases b) simp_all
qed simp_all

lemma roots_zero: "roots (zero ty) = {}"
  by (simp add: roots_def droots_zero)

lemma reach_zero: "reach h ty (zero ty) = {}"
  using conforms_reach_bound[of "[]" ty "zero ty"] conforms_zero[of "[]" ty]
proof (induction ty)
  case (TBasic b)
  then show ?case by simp
next
  case (TStruct ds ts)
  have "\<Union> (set (map2 (reach h) ts (map zero ts))) = {}"
    using TStruct.IH conforms_reach_bound[of "[]" _ "zero _"] conforms_zero[of "[]"]
    by (induction ts) simp_all
  then show ?case by simp
qed simp_all

lemma inner_zero: "inner h ty (zero ty) = {}"
  using conforms_reach[OF conforms_zero, of h ty] reach_zero[of h ty] by simp

lemma absv_zero: "absv h ty (zero ty) = absv [] ty (zero ty)"
proof (induction ty)
  case (TStruct ds ts)
  have "map2 (absv h) ts (map zero ts) = map2 (absv []) ts (map zero ts)"
    using TStruct.IH by (induction ts) simp_all
  then show ?case by simp
qed simp_all

lemma entries_key_eq: "key_eq k x \<Longrightarrow> entries h vt r k = entries h vt r x"
  by (simp add: entries_def mapaccess_key_eq[of k x])

lemma cell_update:
  assumes ca: "conforms h (TMap kt vt) (VMap (Some ra))"
    and f1: "frame {} h h1"
    and na: "ra \<notin> inner h (TMap kt vt) (VMap (Some ra))"
    and ck: "conforms h1 kt k" and cv: "conforms h1 vt v" and nn: "\<not> has_nan k"
    and nk: "ra \<notin> reach h1 kt k" and nv: "ra \<notin> reach h1 vt v"
    and h2: "h2 = h1[ra := mapassign k v (h1 ! ra)]"
  shows "conforms h2 (TMap kt vt) (VMap (Some ra))"
    and "frame {ra} h1 h2"
    and "entries h2 vt ra = (\<lambda>x. if key_eq k x then Some (absv h1 vt v) else entries h vt ra x)"
    and "inner h2 (TMap kt vt) (VMap (Some ra))
           \<subseteq> inner h (TMap kt vt) (VMap (Some ra)) \<union> reach h1 kt k \<union> reach h1 vt v"
proof -
  from ca have ra: "ra < length h" and dk: "keys_ok (h ! ra)"
    and es: "\<And>e. e \<in> set (h ! ra) \<Longrightarrow> conforms h kt (fst e) \<and> conforms h vt (snd e)"
    by auto
  from f1 ra have ra1: "ra < length h1" and eq: "h1 ! ra = h ! ra"
    by (auto simp: frame_def)
  show f2: "frame {ra} h1 h2"
    unfolding h2 frame_def by simp
  have cell: "h2 ! ra = mapassign k v (h ! ra)" and ra2: "ra < length h2"
    unfolding h2 using ra1 eq by simp_all
  have old: "conforms h2 kt (fst e) \<and> conforms h2 vt (snd e)
      \<and> absv h2 vt (snd e) = absv h vt (snd e)
      \<and> reach h2 kt (fst e) = reach h kt (fst e) \<and> reach h2 vt (snd e) = reach h vt (snd e)"
    if e: "e \<in> set (h ! ra)" for e
  proof -
    from na e ra have n: "reach h kt (fst e) \<inter> {} = {}" "reach h vt (snd e) \<inter> {} = {}"
      and n2: "ra \<notin> reach h kt (fst e)" "ra \<notin> reach h vt (snd e)"
      by auto
    from es[OF e] have c: "conforms h kt (fst e)" "conforms h vt (snd e)" by simp_all
    from stable[OF c(1) f1 n(1)] stable[OF c(2) f1 n(2)]
    have s1: "conforms h1 kt (fst e)" "reach h1 kt (fst e) = reach h kt (fst e)"
      "conforms h1 vt (snd e)" "absv h1 vt (snd e) = absv h vt (snd e)"
      "reach h1 vt (snd e) = reach h vt (snd e)" by blast+
    have "reach h1 kt (fst e) \<inter> {ra} = {}" "reach h1 vt (snd e) \<inter> {ra} = {}"
      using n2 s1 by simp_all
    from stable[OF s1(1) f2 this(1)] stable[OF s1(3) f2 this(2)] s1
    show ?thesis by simp
  qed
  have new: "conforms h2 kt k \<and> conforms h2 vt v \<and> absv h2 vt v = absv h1 vt v
      \<and> reach h2 kt k = reach h1 kt k \<and> reach h2 vt v = reach h1 vt v"
  proof -
    have "reach h1 kt k \<inter> {ra} = {}" "reach h1 vt v \<inter> {ra} = {}"
      using nk nv by simp_all
    from stable[OF ck f2 this(1)] stable[OF cv f2 this(2)]
    show ?thesis by simp
  qed
  have ent: "e = (k, v) \<or> e \<in> set (h ! ra)" if "e \<in> set (h2 ! ra)" for e
    using that set_mapassign_subset[of k v "h ! ra"] unfolding cell by auto
  have "conforms h2 kt (fst e) \<and> conforms h2 vt (snd e)" if "e \<in> set (h2 ! ra)" for e
    using ent[OF that] old[of e] new by auto
  moreover have "keys_ok (h2 ! ra)"
    unfolding cell using dk nn by (rule keys_ok_mapassign)
  ultimately show "conforms h2 (TMap kt vt) (VMap (Some ra))"
    using ra2 by simp
  show "entries h2 vt ra = (\<lambda>x. if key_eq k x then Some (absv h1 vt v) else entries h vt ra x)"
  proof
    fix x
    show "entries h2 vt ra x = (if key_eq k x then Some (absv h1 vt v) else entries h vt ra x)"
    proof (cases "key_eq k x")
      case True
      then show ?thesis using new by (simp add: entries_def cell mapaccess_assign)
    next
      case False
      show ?thesis
      proof (cases "mapaccess (h ! ra) x")
        case None
        then show ?thesis using False by (simp add: entries_def cell mapaccess_assign)
      next
        case (Some y)
        then obtain x' where "(x', y) \<in> set (h ! ra)" using mapaccess_SomeD by blast
        from old[OF this] Some False show ?thesis
          by (simp add: entries_def cell mapaccess_assign)
      qed
    qed
  qed
  show "inner h2 (TMap kt vt) (VMap (Some ra))
           \<subseteq> inner h (TMap kt vt) (VMap (Some ra)) \<union> reach h1 kt k \<union> reach h1 vt v"
  proof
    fix r
    assume "r \<in> inner h2 (TMap kt vt) (VMap (Some ra))"
    then obtain e where e: "e \<in> set (h2 ! ra)"
      and r: "r \<in> reach h2 kt (fst e) \<union> reach h2 vt (snd e)"
      using ra2 by auto
    from ent[OF e] show "r \<in> inner h (TMap kt vt) (VMap (Some ra)) \<union> reach h1 kt k \<union> reach h1 vt v"
    proof
      assume "e = (k, v)"
      with r new show ?thesis by auto
    next
      assume "e \<in> set (h ! ra)"
      with r old[OF this] ra show ?thesis by auto
    qed
  qed
qed

lemma absv_map: "absv h (TMap kt vt) (VMap (Some r)) = AMap (Some (entries h vt r))"
  by (simp add: entries_def)

lemma frame_empty_trans:
  assumes "frame {} h h0" and "frame X h0 h1" and "X \<inter> {..<length h} = {}"
  shows "frame {} h h1"
  using frame_trans[OF assms(1,2)] assms(3) by simp

text \<open>
  The loop over the keys. \<open>ks\<close> are keys of \<open>b\<close> that are still to be visited; a key \<open>x\<close> is
  hit when it is equal to one of them.
\<close>

lemma merge_keys_refines:
  assumes rf: "refines vt m"
    and ca: "conforms h (TMap kt vt) (VMap (Some ra))"
    and cb: "conforms h (TMap kt vt) (VMap (Some rb))"
    and na: "ra \<notin> inner h (TMap kt vt) (VMap (Some ra))"
    and nb: "ra \<notin> reach h (TMap kt vt) (VMap (Some rb))"
    and dk: "distinct (map knorm ks)" and ks: "set ks \<subseteq> fst ` set (h ! rb)"
  shows "\<exists>c h'. merge_keys m (zero vt) (Some ra) (Some rb) ks h = Inr (c, h')
     \<and> frame {ra} h h' \<and> conforms h' (TMap kt vt) (VMap (Some ra))
     \<and> ra \<notin> inner h' (TMap kt vt) (VMap (Some ra))
     \<and> inner h' (TMap kt vt) (VMap (Some ra))
         \<subseteq> inner h (TMap kt vt) (VMap (Some ra)) \<union> reach h (TMap kt vt) (VMap (Some rb))
             \<union> {length h ..< length h'}
     \<and> entries h' vt ra
         = (\<lambda>x. if (\<exists>k \<in> set ks. key_eq k x)
                then snd (amerge_entry (amerge vt) (absv [] vt (zero vt))
                            (entries h vt ra x) (entries h vt rb x))
                else entries h vt ra x)
     \<and> c = (\<exists>x \<in> set ks. fst (amerge_entry (amerge vt) (absv [] vt (zero vt))
                            (entries h vt ra x) (entries h vt rb x)))"
  using ca cb na nb dk ks
proof (induction ks arbitrary: h)
  case Nil
  then show ?case by (auto simp: frame_refl)
next
  case (Cons k ks)
  define T where "T = TMap kt vt"
  define A where "A = VMap (Some ra)"
  define B where "B = VMap (Some rb)"
  define Z where "Z = absv [] vt (zero vt)"
  define E where "E = (\<lambda>x. amerge_entry (amerge vt) Z (entries h vt ra x) (entries h vt rb x))"
  note ca = Cons.prems(1)[folded T_def A_def] and cb = Cons.prems(2)[folded T_def B_def]
    and na = Cons.prems(3)[folded T_def A_def] and nb = Cons.prems(4)[folded T_def B_def]
  have ra: "ra < length h" and rb: "rb < length h" and neq: "rb \<noteq> ra"
    and okb: "keys_ok (h ! rb)"
    using Cons.prems(1,2,4) by auto
  from Cons.prems(5) have kk: "knorm k \<notin> knorm ` set ks" and dks: "distinct (map knorm ks)"
    by simp_all
  have kn: "\<forall>k' \<in> set ks. \<not> key_eq k' k"
  proof (intro ballI notI)
    fix k' assume k': "k' \<in> set ks" and "key_eq k' k"
    then have "knorm k' = knorm k" by (simp add: key_eq_def)
    moreover from k' have "knorm k' \<in> knorm ` set ks" by (rule imageI)
    ultimately show False using kk by simp
  qed
  from Cons.prems(6) obtain bv where bv: "(k, bv) \<in> set (h ! rb)" and sks: "set ks \<subseteq> fst ` set (h ! rb)"
    by auto
  have nan: "\<not> has_nan x" if "x \<in> set (k # ks)" for x
    using that Cons.prems(6) okb unfolding keys_ok_def by auto
  have mb: "mapaccess (h ! rb) k = Some bv"
    using okb bv by (rule mapaccess_mem)
  have ib: "MapIndex h (Some rb) k = Some bv"
    using mb rb by (simp add: MapIndex_def)
  from bv Cons.prems(2) have ck: "conforms h kt k" and cbv: "conforms h vt bv" by auto
  from bv rb have rbk: "reach h kt k \<subseteq> reach h T B" and rbv: "reach h vt bv \<subseteq> reach h T B"
    unfolding T_def B_def by auto
  have gk: "entries h vt rb k = Some (absv h vt bv)"
    using mb by (simp add: entries_def)
  have Ek: "E x = E k" if "key_eq k x" for x
    unfolding E_def using entries_key_eq[OF that] by simp
  have sB: "reach h T B \<inter> {ra} = {}" using nb by simp
  have step: "\<exists>c h'. merge_keys m (zero vt) (Some ra) (Some rb) (k # ks) h = Inr (c, h')
     \<and> frame {ra} h h' \<and> conforms h' T A \<and> ra \<notin> inner h' T A
     \<and> inner h' T A \<subseteq> inner h T A \<union> reach h T B \<union> {length h ..< length h'}
     \<and> entries h' vt ra
         = (\<lambda>x. if (\<exists>k' \<in> set (k # ks). key_eq k' x) then snd (E x) else entries h vt ra x)
     \<and> c = (\<exists>x \<in> set (k # ks). fst (E x))"
    if pre: "merge_keys m (zero vt) (Some ra) (Some rb) (k # ks) h
               = (case merge_keys m (zero vt) (Some ra) (Some rb) ks h2 of
                    Inl e \<Rightarrow> Inl e | Inr (cs, h3) \<Rightarrow> Inr (w \<or> cs, h3))"
      and f2: "frame {ra} h h2" and c2: "conforms h2 T A" and n2: "ra \<notin> inner h2 T A"
      and i2: "inner h2 T A \<subseteq> inner h T A \<union> reach h T B \<union> {length h ..< length h2}"
      and e2: "entries h2 vt ra = (\<lambda>x. if key_eq k x then snd (E k) else entries h vt ra x)"
      and w: "w = fst (E k)"
    for h2 w
  proof -
    from stable[OF cb f2 sB] have stb: "conforms h2 T B" "absv h2 T B = absv h T B"
      "reach h2 T B = reach h T B" by blast+
    from stb(2) have g2: "entries h2 vt rb = entries h vt rb"
      unfolding T_def B_def absv_map by simp
    from f2 rb neq have cell: "h2 ! rb = h ! rb" by (simp add: frame_def)
    have nb2: "ra \<notin> reach h2 T B" using nb stb(3) by simp
    from Cons.IH[of h2, OF c2[unfolded T_def A_def] stb(1)[unfolded T_def B_def]
        n2[unfolded T_def A_def] nb2[unfolded T_def B_def] dks] sks cell
    obtain c' h' where m': "merge_keys m (zero vt) (Some ra) (Some rb) ks h2 = Inr (c', h')"
      and f': "frame {ra} h2 h'" and c': "conforms h' T A" and n': "ra \<notin> inner h' T A"
      and i': "inner h' T A \<subseteq> inner h2 T A \<union> reach h2 T B \<union> {length h2 ..< length h'}"
      and e': "entries h' vt ra = (\<lambda>x. if (\<exists>k' \<in> set ks. key_eq k' x)
                then snd (amerge_entry (amerge vt) Z (entries h2 vt ra x) (entries h2 vt rb x))
                else entries h2 vt ra x)"
      and cc: "c' = (\<exists>x \<in> set ks. fst (amerge_entry (amerge vt) Z
                            (entries h2 vt ra x) (entries h2 vt rb x)))"
      unfolding T_def A_def B_def Z_def by auto
    have nk: "\<not> key_eq k x" if "\<exists>k' \<in> set ks. key_eq k' x" for x
    proof
      assume "key_eq k x"
      moreover from that obtain k' where k': "k' \<in> set ks" "key_eq k' x" by blast
      ultimately have "key_eq k' k" using key_eq_trans key_eq_sym by blast
      with kn k'(1) show False by blast
    qed
    have same: "amerge_entry (amerge vt) Z (entries h2 vt ra x) (entries h2 vt rb x) = E x"
      if "\<exists>k' \<in> set ks. key_eq k' x" for x
      using nk[OF that] unfolding E_def e2 g2 by simp
    have hit: "\<exists>k' \<in> set ks. key_eq k' x" if "x \<in> set ks" for x
      using that nan[of x] key_eq_refl[of x] by auto
    have r1: "merge_keys m (zero vt) (Some ra) (Some rb) (k # ks) h = Inr (w \<or> c', h')"
      using pre m' by simp
    have r2: "frame {ra} h h'"
      using frame_trans[OF f2 f'] by simp
    have len: "length h \<le> length h2" "length h2 \<le> length h'"
      using f2 f' by (simp_all add: frame_def)
    have r3: "inner h' T A \<subseteq> inner h T A \<union> reach h T B \<union> {length h ..< length h'}"
    proof
      fix r assume "r \<in> inner h' T A"
      with i' have "r \<in> inner h2 T A \<or> r \<in> reach h T B \<or> r \<in> {length h2 ..< length h'}"
        using stb(3) by auto
      with i2 len show "r \<in> inner h T A \<union> reach h T B \<union> {length h ..< length h'}"
        by auto
    qed
    have r4: "entries h' vt ra
        = (\<lambda>x. if (\<exists>k' \<in> set (k # ks). key_eq k' x) then snd (E x) else entries h vt ra x)"
    proof
      fix x
      show "entries h' vt ra x
          = (if (\<exists>k' \<in> set (k # ks). key_eq k' x) then snd (E x) else entries h vt ra x)"
      proof (cases "\<exists>k' \<in> set ks. key_eq k' x")
        case True
        then show ?thesis using same[OF True] unfolding e' by auto
      next
        case False
        then show ?thesis using Ek[of x] unfolding e' e2 by auto
      qed
    qed
    have r5: "(w \<or> c') = (\<exists>x \<in> set (k # ks). fst (E x))"
      unfolding cc w using same hit by auto
    show ?thesis using r1 r2 c' n' r3 r4 r5 by blast
  qed
  have nk: "ra \<notin> reach h kt k" and nv: "ra \<notin> reach h vt bv"
    using rbk rbv nb by auto
  have nnk: "\<not> has_nan k" using nan by simp
  have goal: ?case if "\<exists>c h'. merge_keys m (zero vt) (Some ra) (Some rb) (k # ks) h = Inr (c, h')
     \<and> frame {ra} h h' \<and> conforms h' T A \<and> ra \<notin> inner h' T A
     \<and> inner h' T A \<subseteq> inner h T A \<union> reach h T B \<union> {length h ..< length h'}
     \<and> entries h' vt ra
         = (\<lambda>x. if (\<exists>k' \<in> set (k # ks). key_eq k' x) then snd (E x) else entries h vt ra x)
     \<and> c = (\<exists>x \<in> set (k # ks). fst (E x))"
    using that unfolding T_def A_def B_def E_def Z_def by simp
  show ?case
  proof (cases "mapaccess (h ! ra) k")
    case None
    define h2 where "h2 = h[ra := mapassign k bv (h ! ra)]"
    have ia: "MapIndex h (Some ra) k = None"
      using None ra by (simp add: MapIndex_def)
    have sm: "SetMapIndex h (Some ra) k (Some bv) = Inr h2"
      using ra by (simp add: SetMapIndex_def h2_def)
    have pre: "merge_keys m (zero vt) (Some ra) (Some rb) (k # ks) h
               = (case merge_keys m (zero vt) (Some ra) (Some rb) ks h2 of
                    Inl e \<Rightarrow> Inl e | Inr (cs, h3) \<Rightarrow> Inr (True \<or> cs, h3))"
      using ib ia sm by (simp split: sum.splits)
    note cu = cell_update[OF Cons.prems(1) frame_refl Cons.prems(3) ck cbv nnk nk nv h2_def,
        folded T_def A_def]
    have fk: "entries h vt ra k = None" using None by (simp add: entries_def)
    have ek: "E k = (True, Some (absv h vt bv))"
      unfolding E_def fk gk by (simp add: amerge_entry_def)
    have sk: "snd (E k) = Some (absv h vt bv)" by (simp add: ek)
    have e2: "entries h2 vt ra = (\<lambda>x. if key_eq k x then snd (E k) else entries h vt ra x)"
      unfolding sk by (rule cu(3))
    have i2: "inner h2 T A \<subseteq> inner h T A \<union> reach h T B \<union> {length h ..< length h2}"
      using cu(4) rbk rbv by blast
    have n2: "ra \<notin> inner h2 T A"
      using cu(4) na nk nv by blast
    show ?thesis
      by (rule goal, rule step[OF pre cu(2) cu(1) n2 i2 e2]) (simp add: ek)
  next
    case (Some av)
    then obtain k' where av: "(k', av) \<in> set (h ! ra)" using mapaccess_SomeD by blast
    with Cons.prems(1) have cav: "conforms h vt av" by auto
    from av ra have rav: "reach h vt av \<subseteq> inner h T A" unfolding T_def A_def by auto
    have ia: "MapIndex h (Some ra) k = Some av"
      using Some ra by (simp add: MapIndex_def)
    have fk: "entries h vt ra k = Some (absv h vt av)" using Some by (simp add: entries_def)
    have oz: "owned h vt (zero vt) av"
      by (simp add: owned_def droots_zero roots_zero)
    from rf conforms_zero[of h vt] cav oz obtain c0 s0 h0
      where m0: "m (zero vt) av h = Inr (c0, s0, h0)" and p0: "merged vt (zero vt) av h c0 s0 h0"
      unfolding refines_def by blast
    from p0 have e0: "amerge vt Z (absv h vt av) = (c0, absv h0 vt s0)"
      and k0: "conforms h0 vt s0" and f0: "frame {} h h0"
      and r0: "roots s0 \<subseteq> {length h ..< length h0}" and d0: "distinct (droots s0)"
      and o0: "roots s0 \<inter> inner h0 vt s0 = {}"
      and i0: "inner h0 vt s0 \<subseteq> reach h vt av \<union> {length h ..< length h0}"
      unfolding merged_def Z_def by (simp_all add: roots_zero inner_zero absv_zero[of h])
    have "reach h vt bv \<inter> {} = {}" by simp
    from stable[OF cbv f0 this] have sbv: "conforms h0 vt bv" "absv h0 vt bv = absv h vt bv"
      "reach h0 vt bv = reach h vt bv" by blast+
    have bvold: "reach h vt bv \<subseteq> {..<length h}" by (rule conforms_reach_bound[OF cbv])
    have avold: "reach h vt av \<subseteq> {..<length h}" by (rule conforms_reach_bound[OF cav])
    have "roots s0 \<inter> reach h vt bv = {}"
      using r0 bvold by fastforce
    then have o1: "owned h0 vt s0 bv"
      unfolding owned_def sbv using d0 o0 by auto
    from rf k0 sbv(1) o1 obtain c1 s1 h1
      where m1: "m s0 bv h0 = Inr (c1, s1, h1)" and p1: "merged vt s0 bv h0 c1 s1 h1"
      unfolding refines_def by blast
    from p1 have e1: "amerge vt (absv h0 vt s0) (absv h vt bv) = (c1, absv h1 vt s1)"
      and k1: "conforms h1 vt s1" and f1: "frame (roots s0) h0 h1"
      and r1: "roots s1 \<subseteq> roots s0 \<union> {length h0 ..< length h1}"
      and i1: "inner h1 vt s1 \<subseteq> inner h0 vt s0 \<union> reach h vt bv \<union> {length h0 ..< length h1}"
      unfolding merged_def sbv by simp_all
    have len: "length h \<le> length h0" "length h0 \<le> length h1"
      using f0 f1 by (simp_all add: frame_def)
    have "roots s0 \<inter> {..<length h} = {}"
      using r0 by fastforce
    then have f01: "frame {} h h1"
      by (rule frame_empty_trans[OF f0 f1])
    have ek: "E k = (c1, Some (if c1 then absv h1 vt s1 else absv h vt av))"
      unfolding E_def fk gk using e0 e1 by (simp add: amerge_entry_def Let_def)
    show ?thesis
    proof (cases c1)
      case True
      define h2 where "h2 = h1[ra := mapassign k s1 (h1 ! ra)]"
      have ra1: "ra < length h1" using ra len by simp
      have sm: "SetMapIndex h1 (Some ra) k (Some s1) = Inr h2"
        using ra1 by (simp add: SetMapIndex_def h2_def)
      have pre: "merge_keys m (zero vt) (Some ra) (Some rb) (k # ks) h
               = (case merge_keys m (zero vt) (Some ra) (Some rb) ks h2 of
                    Inl e \<Rightarrow> Inl e | Inr (cs, h3) \<Rightarrow> Inr (True \<or> cs, h3))"
        using ib ia m0 m1 sm True by (simp split: sum.splits)
      have "reach h kt k \<inter> {} = {}" by simp
      from stable[OF ck f01 this] have sk: "conforms h1 kt k" "reach h1 kt k = reach h kt k"
        by blast+
      have "{length h ..< length h0} \<union> {length h0 ..< length h1} = {length h ..< length h1}"
        using len by auto
      then have rs1: "reach h1 vt s1 \<subseteq> reach h vt av \<union> reach h vt bv \<union> {length h ..< length h1}"
        using conforms_reach[OF k1] r1 r0 i1 i0 by blast
      have nk1: "ra \<notin> reach h1 kt k" using nk sk by simp
      have "ra \<notin> {length h ..< length h1}" using ra by simp
      then have nv1: "ra \<notin> reach h1 vt s1"
        using rs1 rav na nv by blast
      note cu = cell_update[OF Cons.prems(1) f01 Cons.prems(3) sk(1) k1 nnk nk1 nv1 h2_def,
          folded T_def A_def]
      have f2: "frame {ra} h h2"
        using frame_trans[OF frame_mono[OF f01, of "{ra}"] cu(2)] by simp
      have se: "snd (E k) = Some (absv h1 vt s1)" using True by (simp add: ek)
      have e2: "entries h2 vt ra = (\<lambda>x. if key_eq k x then snd (E k) else entries h vt ra x)"
        unfolding se by (rule cu(3))
      have l2: "length h2 = length h1" by (simp add: h2_def)
      have i2: "inner h2 T A \<subseteq> inner h T A \<union> reach h T B \<union> {length h ..< length h2}"
        using cu(4) sk(2) rbk rbv rs1 rav unfolding l2 by blast
      have n2: "ra \<notin> inner h2 T A"
        using cu(4) na nk1 nv1 by blast
      show ?thesis
        by (rule goal, rule step[OF pre f2 cu(1) n2 i2 e2]) (simp add: ek True)
    next
      case False
      have pre: "merge_keys m (zero vt) (Some ra) (Some rb) (k # ks) h
               = (case merge_keys m (zero vt) (Some ra) (Some rb) ks h1 of
                    Inl e \<Rightarrow> Inl e | Inr (cs, h3) \<Rightarrow> Inr (False \<or> cs, h3))"
        using ib ia m0 m1 False by (simp split: sum.splits prod.splits)
      have "reach h T A \<inter> {} = {}" by simp
      from stable[OF ca f01 this] have sA: "conforms h1 T A" "absv h1 T A = absv h T A"
        "inner h1 T A = inner h T A" by blast+
      have f2: "frame {ra} h h1" by (rule frame_mono[OF f01]) simp
      from sA(2) have ee: "entries h1 vt ra = entries h vt ra"
        unfolding T_def A_def absv_map by simp
      have e2: "entries h1 vt ra = (\<lambda>x. if key_eq k x then snd (E k) else entries h vt ra x)"
      proof
        fix x
        show "entries h1 vt ra x = (if key_eq k x then snd (E k) else entries h vt ra x)"
          using entries_key_eq[of k x h vt ra] fk False unfolding ee ek by simp
      qed
      have i2: "inner h1 T A \<subseteq> inner h T A \<union> reach h T B \<union> {length h ..< length h1}"
        using sA(3) by blast
      have n2: "ra \<notin> inner h1 T A" using sA(3) na by simp
      show ?thesis
        by (rule goal, rule step[OF pre f2 sA(1) n2 i2 e2]) (simp add: ek False)
    qed
  qed
qed

lemma entries_None: "\<forall>k \<in> fst ` set (h ! r). \<not> key_eq k x \<Longrightarrow> entries h vt r x = None"
  by (auto simp: entries_def mapaccess_None_iff)

lemma amerge_entry_None [simp]: "amerge_entry f z x None = (False, x)"
  by (simp add: amerge_entry_def)

lemma amerge_map_keys:
  assumes "\<And>x. \<not> P x \<Longrightarrow> G x = None"
    and "\<And>x. P x \<Longrightarrow> \<exists>k \<in> set ks. F k = F x \<and> G k = G x"
  shows "(\<lambda>x. if P x then snd (amerge_entry f z (F x) (G x)) else F x)
           = (\<lambda>x. snd (amerge_entry f z (F x) (G x)))"
    and "(\<exists>x \<in> set ks. fst (amerge_entry f z (F x) (G x)))
           = (\<exists>x. fst (amerge_entry f z (F x) (G x)))"
proof -
  show "(\<lambda>x. if P x then snd (amerge_entry f z (F x) (G x)) else F x)
           = (\<lambda>x. snd (amerge_entry f z (F x) (G x)))"
  proof
    fix x
    show "(if P x then snd (amerge_entry f z (F x) (G x)) else F x)
        = snd (amerge_entry f z (F x) (G x))"
      using assms(1)[of x] by (cases "P x") simp_all
  qed
  show "(\<exists>x \<in> set ks. fst (amerge_entry f z (F x) (G x)))
           = (\<exists>x. fst (amerge_entry f z (F x) (G x)))"
  proof
    assume "\<exists>x. fst (amerge_entry f z (F x) (G x))"
    then obtain x where x: "fst (amerge_entry f z (F x) (G x))" by blast
    then have "P x" using assms(1)[of x] by (cases "P x") simp_all
    from assms(2)[OF this] obtain k where k: "k \<in> set ks" "F k = F x" "G k = G x" by blast
    from x have "fst (amerge_entry f z (F k) (G k))" unfolding k(2,3) .
    with k(1) show "\<exists>x \<in> set ks. fst (amerge_entry f z (F x) (G x))" by blast
  qed blast
qed

lemma refines_map:
  assumes rf: "refines vt m"
  shows "refines (TMap kt vt) (merge_map m (zero vt))"
  unfolding refines_def
proof (intro allI impI, elim conjE)
  fix a b h
  assume ca: "conforms h (TMap kt vt) a" and cb: "conforms h (TMap kt vt) b"
    and ow: "owned h (TMap kt vt) a b"
  from ca obtain ma where a: "a = VMap ma" by (cases a) simp_all
  from cb obtain mb where b: "b = VMap mb" by (cases b) simp_all
  show "\<exists>c a' h'. merge_map m (zero vt) a b h = Inr (c, a', h') \<and> merged (TMap kt vt) a b h c a' h'"
  proof (cases mb)
    case None
    have "merge_map m (zero vt) a b h = Inr (False, a, h)"
      unfolding a b None by (simp add: merge_map_def MapKeys_def)
    moreover have "merged (TMap kt vt) a b h False a h"
      using ca ow unfolding merged_def owned_def a b None
      by (cases ma) (auto simp: frame_refl)
    ultimately show ?thesis by blast
  next
    case (Some rb)
    define ks where "ks = map fst (h ! rb)"
    define P where "P = (\<lambda>x. \<exists>k \<in> set ks. key_eq k x)"
    from cb have rb: "rb < length h" and okb: "keys_ok (h ! rb)"
      unfolding b Some by simp_all
    from okb have db: "distinct (map knorm ks)"
      unfolding ks_def keys_ok_def by simp
    have sks: "set ks \<subseteq> fst ` set (h ! rb)" unfolding ks_def by simp
    have g1: "\<And>x. \<not> P x \<Longrightarrow> entries h vt rb x = None"
      unfolding P_def ks_def by (rule entries_None) simp
    have g2: "\<exists>k \<in> set ks. F k = F x \<and> entries h vt rb k = entries h vt rb x"
      if "P x" and "\<And>k. key_eq k x \<Longrightarrow> F k = F x" for x and F :: "val \<Rightarrow> aval option"
      using that entries_key_eq[of _ x h vt rb] unfolding P_def by blast
    show ?thesis
    proof (cases ma)
      case (Some ra)
      note ca' = ca[unfolded a Some] and cb' = cb[unfolded b \<open>mb = Some rb\<close>]
      from ow have na: "ra \<notin> inner h (TMap kt vt) (VMap (Some ra))"
        and nb: "ra \<notin> reach h (TMap kt vt) (VMap (Some rb))"
        unfolding owned_def a b Some \<open>mb = Some rb\<close> by auto
      from merge_keys_refines[OF rf ca' cb' na nb db sks]
      obtain c h' where mk: "merge_keys m (zero vt) (Some ra) (Some rb) ks h = Inr (c, h')"
        and f: "frame {ra} h h'" and c': "conforms h' (TMap kt vt) (VMap (Some ra))"
        and n': "ra \<notin> inner h' (TMap kt vt) (VMap (Some ra))"
        and i': "inner h' (TMap kt vt) (VMap (Some ra))
         \<subseteq> inner h (TMap kt vt) (VMap (Some ra)) \<union> reach h (TMap kt vt) (VMap (Some rb))
             \<union> {length h ..< length h'}"
        and e': "entries h' vt ra
         = (\<lambda>x. if P x
                then snd (amerge_entry (amerge vt) (absv [] vt (zero vt))
                            (entries h vt ra x) (entries h vt rb x))
                else entries h vt ra x)"
        and cc: "c = (\<exists>x \<in> set ks. fst (amerge_entry (amerge vt) (absv [] vt (zero vt))
                            (entries h vt ra x) (entries h vt rb x)))"
        unfolding P_def by auto
      have g3: "\<And>x. P x \<Longrightarrow> \<exists>k \<in> set ks. entries h vt ra k = entries h vt ra x
          \<and> entries h vt rb k = entries h vt rb x"
        by (rule g2) (simp_all add: entries_key_eq)
      have res: "merge_map m (zero vt) a b h = Inr (c, VMap (Some ra), h')"
        unfolding a b Some \<open>mb = Some rb\<close> using mk rb
        by (simp add: merge_map_def MapKeys_def ks_def)
      have e2: "entries h' vt ra = (\<lambda>x. snd (amerge_entry (amerge vt) (absv [] vt (zero vt))
                            (entries h vt ra x) (entries h vt rb x)))"
        unfolding e' by (rule amerge_map_keys(1)[where P = P and ks = ks, OF g1 g3])
      have c2: "c = (\<exists>x. fst (amerge_entry (amerge vt) (absv [] vt (zero vt))
                            (entries h vt ra x) (entries h vt rb x)))"
        unfolding cc by (rule amerge_map_keys(2)[where P = P and ks = ks, OF g1 g3])
      have ab: "(c, absv h' (TMap kt vt) (VMap (Some ra)))
          = amerge (TMap kt vt) (absv h (TMap kt vt) a) (absv h (TMap kt vt) b)"
        unfolding a b Some \<open>mb = Some rb\<close> absv_map e2 using c2
        by (simp add: Let_def)
      have "merged (TMap kt vt) a b h c (VMap (Some ra)) h'"
        unfolding merged_def using ab c' f n' i' unfolding a b Some \<open>mb = Some rb\<close>
        by simp
      with res show ?thesis by blast
    next
      case None
      define ra where "ra = length h"
      define h1 where "h1 = h @ [[]::(val \<times> val) list]"
      have f1: "frame {} h h1" by (simp add: frame_def h1_def nth_append)
      have "reach h (TMap kt vt) b \<inter> {} = {}" by simp
      from stable[OF cb f1 this] have sb: "conforms h1 (TMap kt vt) (VMap (Some rb))"
        "absv h1 (TMap kt vt) (VMap (Some rb)) = absv h (TMap kt vt) (VMap (Some rb))"
        "reach h1 (TMap kt vt) (VMap (Some rb)) = reach h (TMap kt vt) (VMap (Some rb))"
        unfolding b Some by blast+
      have bold: "reach h (TMap kt vt) (VMap (Some rb)) \<subseteq> {..<length h}"
        using conforms_reach_bound[OF cb] unfolding b Some .
      have cell: "h1 ! ra = []" "ra < length h1" "h1 ! rb = h ! rb"
        using rb by (simp_all add: h1_def ra_def nth_append)
      have ca1: "conforms h1 (TMap kt vt) (VMap (Some ra))"
        using cell by (simp add: keys_ok_def)
      have na: "ra \<notin> inner h1 (TMap kt vt) (VMap (Some ra))"
        using cell by simp
      have "ra \<notin> {..<length h}" by (simp add: ra_def)
      then have nb: "ra \<notin> reach h1 (TMap kt vt) (VMap (Some rb))"
        unfolding sb(3) using bold by blast
      have sks1: "set ks \<subseteq> fst ` set (h1 ! rb)"
        using sks cell by simp
      from merge_keys_refines[OF rf ca1 sb(1) na nb db sks1]
      obtain c h' where mk: "merge_keys m (zero vt) (Some ra) (Some rb) ks h1 = Inr (c, h')"
        and f: "frame {ra} h1 h'" and c': "conforms h' (TMap kt vt) (VMap (Some ra))"
        and n': "ra \<notin> inner h' (TMap kt vt) (VMap (Some ra))"
        and i': "inner h' (TMap kt vt) (VMap (Some ra))
         \<subseteq> inner h1 (TMap kt vt) (VMap (Some ra)) \<union> reach h1 (TMap kt vt) (VMap (Some rb))
             \<union> {length h1 ..< length h'}"
        and e': "entries h' vt ra
         = (\<lambda>x. if P x
                then snd (amerge_entry (amerge vt) (absv [] vt (zero vt))
                            (entries h1 vt ra x) (entries h1 vt rb x))
                else entries h1 vt ra x)"
        and cc: "c = (\<exists>x \<in> set ks. fst (amerge_entry (amerge vt) (absv [] vt (zero vt))
                            (entries h1 vt ra x) (entries h1 vt rb x)))"
        unfolding P_def by auto
      have ea: "entries h1 vt ra = Map.empty"
        using cell by (simp add: entries_def fun_eq_iff)
      have eb: "entries h1 vt rb = entries h vt rb"
        using sb(2) unfolding absv_map by simp
      have g3: "\<And>x. P x \<Longrightarrow> \<exists>k \<in> set ks. (Map.empty :: val \<Rightarrow> aval option) k = Map.empty x
          \<and> entries h vt rb k = entries h vt rb x"
        by (rule g2) simp_all
      have res: "merge_map m (zero vt) a b h = Inr (c, VMap (Some ra), h')"
        unfolding a b None \<open>mb = Some rb\<close> using mk rb cell
        by (simp add: merge_map_def MapKeys_def h1_def[symmetric] ra_def[symmetric] ks_def)
      have e2: "entries h' vt ra = (\<lambda>x. snd (amerge_entry (amerge vt) (absv [] vt (zero vt))
                            (Map.empty x) (entries h vt rb x)))"
        unfolding e' ea eb by (rule amerge_map_keys(1)[where P = P and ks = ks, OF g1 g3])
      have c2: "c = (\<exists>x. fst (amerge_entry (amerge vt) (absv [] vt (zero vt))
                            (Map.empty x) (entries h vt rb x)))"
        unfolding cc ea eb by (rule amerge_map_keys(2)[where P = P and ks = ks, OF g1 g3])
      have ab: "(c, absv h' (TMap kt vt) (VMap (Some ra)))
          = amerge (TMap kt vt) (absv h (TMap kt vt) a) (absv h (TMap kt vt) b)"
        unfolding a b None \<open>mb = Some rb\<close> absv_map e2 using c2
        by (simp add: Let_def)
      have len: "length h1 = Suc (length h)" "length h1 \<le> length h'"
        using f by (simp_all add: h1_def frame_def)
      have fr: "frame (roots a) h h'"
        using frame_trans[OF frame_mono[OF f1, of "{ra}"] f] by (simp add: a None frame_def ra_def)
      have ro: "roots (VMap (Some ra)) \<subseteq> roots a \<union> {length h ..< length h'}"
        using len by (simp add: ra_def)
      have "{length h1 ..< length h'} \<subseteq> {length h ..< length h'}"
        using len by auto
      moreover have "inner h1 (TMap kt vt) (VMap (Some ra)) = {}"
        using cell by simp
      ultimately have ib: "inner h' (TMap kt vt) (VMap (Some ra))
          \<subseteq> inner h (TMap kt vt) a \<union> reach h (TMap kt vt) b \<union> {length h ..< length h'}"
        using i' unfolding sb(3) b \<open>mb = Some rb\<close> by blast
      have "merged (TMap kt vt) a b h c (VMap (Some ra)) h'"
        unfolding merged_def using ab c' fr ro n' ib by simp
      with res show ?thesis by blast
    qed
  qed
qed

lemma merge_refines: "mergeable mt ty \<Longrightarrow> refines ty (merge mt ty)"
proof (induction ty)
  case (TBasic b)
  then show ?case by (simp add: refines_basic)
next
  case (TStruct ds ts)
  then have "\<forall>t \<in> set ts. refines t (merge mt t)"
    by (auto simp: list_all_iff)
  with TStruct.prems show ?case
    by (simp add: refines_struct)
next
  case (TMap kt vt)
  then show ?case by (simp add: refines_map)
next
  case (TPtr t)
  then show ?case by simp
next
  case (TNamed n u)
  then have m: "merge mt (TNamed n u) = merge mt u" and r: "refines u (merge mt u)"
    by auto
  show ?case
    using r unfolding m refines_def merged_def owned_def by simp
qed

lemma merge_owned:
  assumes "mergeable mt ty" and "conforms h ty a" and "conforms h ty b" and "owned h ty a b"
  obtains c a' h' where "merge mt ty a b h = Inr (c, a', h')" and "merged ty a b h c a' h'"
  using merge_refines[OF assms(1)] assms(2-4) unfolding refines_def by blast

lemma owned_zero: "owned h ty (zero ty) a"
  by (simp add: owned_def droots_zero roots_zero)

lemma join_refines:
  assumes mg: "mergeable mt ty" and ca: "conforms h ty a" and cb: "conforms h ty b"
  shows "\<exists>c1 v1 h1 c2 v h'.
           merge mt ty (zero ty) a h = Inr (c1, v1, h1)
         \<and> merge mt ty v1 b h1 = Inr (c2, v, h')
         \<and> (c1, absv h1 ty v1) = amerge ty (absv [] ty (zero ty)) (absv h ty a)
         \<and> (c2, absv h' ty v) = amerge ty (absv h1 ty v1) (absv h ty b)
         \<and> frame {} h h1 \<and> frame {} h h' \<and> conforms h' ty v \<and> owned h' ty v b
         \<and> roots v \<subseteq> {length h ..< length h'}"
proof -
  from merge_owned[OF mg conforms_zero ca owned_zero]
  obtain c1 v1 h1 where m1: "merge mt ty (zero ty) a h = Inr (c1, v1, h1)"
    and p1: "merged ty (zero ty) a h c1 v1 h1" by blast
  from p1 have e1: "(c1, absv h1 ty v1) = amerge ty (absv [] ty (zero ty)) (absv h ty a)"
    and k1: "conforms h1 ty v1" and f1: "frame {} h h1"
    and r1: "roots v1 \<subseteq> {length h ..< length h1}" and d1: "distinct (droots v1)"
    and o1: "roots v1 \<inter> inner h1 ty v1 = {}"
    unfolding merged_def by (simp_all add: roots_zero inner_zero absv_zero[of h])
  have "reach h ty b \<inter> {} = {}" by simp
  from stable[OF cb f1 this] have sb: "conforms h1 ty b" "absv h1 ty b = absv h ty b"
    "reach h1 ty b = reach h ty b" by blast+
  have bold: "reach h ty b \<subseteq> {..<length h}" by (rule conforms_reach_bound[OF cb])
  have dj: "roots v1 \<inter> reach h ty b = {}" using r1 bold by fastforce
  have ow: "owned h1 ty v1 b"
    unfolding owned_def sb using d1 o1 dj by auto
  from merge_owned[OF mg k1 sb(1) ow]
  obtain c2 v h' where m2: "merge mt ty v1 b h1 = Inr (c2, v, h')"
    and p2: "merged ty v1 b h1 c2 v h'" by blast
  from p2 have e2: "(c2, absv h' ty v) = amerge ty (absv h1 ty v1) (absv h ty b)"
    and k2: "conforms h' ty v" and f2: "frame (roots v1) h1 h'"
    and r2: "roots v \<subseteq> roots v1 \<union> {length h1 ..< length h'}" and d2: "distinct (droots v)"
    and o2: "roots v \<inter> inner h' ty v = {}"
    unfolding merged_def sb by simp_all
  have "roots v1 \<inter> {..<length h} = {}" using r1 by fastforce
  then have f: "frame {} h h'" by (rule frame_empty_trans[OF f1 f2])
  have len: "length h \<le> length h1" "length h1 \<le> length h'"
    using f1 f2 by (simp_all add: frame_def)
  then have "{length h ..< length h1} \<union> {length h1 ..< length h'} = {length h ..< length h'}"
    by auto
  then have r: "roots v \<subseteq> {length h ..< length h'}" using r1 r2 by blast
  have "reach h ty b \<inter> {} = {}" by simp
  from stable[OF cb f this] have sb': "reach h' ty b = reach h ty b" by blast
  have "roots v \<inter> reach h ty b = {}" using r bold by fastforce
  then have ow': "owned h' ty v b"
    unfolding owned_def sb' using d2 o2 by auto
  show ?thesis using m1 m2 e1 e2 f1 f k2 ow' r by blast
qed

section \<open>The merge of deep values\<close>


lemma absv_zero_struct:
  "absv [] (TStruct ds ts) (zero (TStruct ds ts)) = AStruct (map (\<lambda>t. absv [] t (zero t)) ts)"
proof -
  have "map2 (absv []) ts (map zero ts) = map (\<lambda>t. absv [] t (zero t)) ts"
    by (induction ts) simp_all
  then show ?thesis by simp
qed


lemma anorm_map [simp]: "anorm (TMap kt vt) (AMap mx) = AMap mx"
proof (cases mx)
  case None
  then show ?thesis by (simp add: anorm_def)
next
  case (Some g)
  have "(\<lambda>k. snd (amerge_entry (amerge vt) (absv [] vt (zero vt)) None (g k))) = g"
  proof
    fix k show "snd (amerge_entry (amerge vt) (absv [] vt (zero vt)) None (g k)) = g k"
      by (cases "g k") (simp_all add: amerge_entry_def)
  qed
  then show ?thesis unfolding Some by (simp add: anorm_def)
qed

lemma anorm_named [simp]: "anorm (TNamed n u) x = anorm u x"
  by (simp add: anorm_def)


lemma nilfree_AMap:
  "nilfree (AMap m) = AMap (Some (map_option nilfree \<circ> (case m of None \<Rightarrow> Map.empty | Some f \<Rightarrow> f)))"
  by (cases m) (simp_all add: fun_eq_iff)




lemma amerge_list_unchanged:
  assumes "\<And>t a b. t \<in> set ts \<Longrightarrow> conforms h t a \<Longrightarrow> conforms g t b
             \<Longrightarrow> \<not> fst (amerge t (absv h t a) (absv g t b))
             \<Longrightarrow> nilfree (snd (amerge t (absv h t a) (absv g t b))) = nilfree (absv h t a)"
    and "list_all2 (conforms h) ts as" and "list_all2 (conforms g) ts bs"
    and "\<not> fst (amerge_list (map amerge ts) (map2 (absv h) ts as) (map2 (absv g) ts bs))"
  shows "map nilfree (snd (amerge_list (map amerge ts) (map2 (absv h) ts as) (map2 (absv g) ts bs)))
           = map nilfree (map2 (absv h) ts as)"
  using assms
proof (induction ts arbitrary: as bs)
  case Nil
  then show ?case by simp
next
  case (Cons t ts)
  from Cons.prems(2) obtain a as' where as: "as = a # as'" and ca: "conforms h t a"
    and cas: "list_all2 (conforms h) ts as'" by (cases as) auto
  from Cons.prems(3) obtain b bs' where bs: "bs = b # bs'" and cb: "conforms g t b"
    and cbs: "list_all2 (conforms g) ts bs'" by (cases bs) auto
  from Cons.prems(4) have 1: "\<not> fst (amerge t (absv h t a) (absv g t b))"
    and 2: "\<not> fst (amerge_list (map amerge ts) (map2 (absv h) ts as') (map2 (absv g) ts bs'))"
    unfolding as bs by simp_all
  have "nilfree (snd (amerge t (absv h t a) (absv g t b))) = nilfree (absv h t a)"
    using Cons.prems(1)[OF _ ca cb 1] by simp
  moreover have "map nilfree (snd (amerge_list (map amerge ts) (map2 (absv h) ts as') (map2 (absv g) ts bs')))
           = map nilfree (map2 (absv h) ts as')"
    using Cons.IH[OF _ cas cbs 2] Cons.prems(1) by simp
  ultimately show ?case unfolding as bs by simp
qed

lemma amerge_unchanged:
  assumes "conforms h ty a" and "conforms g ty b"
    and "\<not> fst (amerge ty (absv h ty a) (absv g ty b))"
  shows "nilfree (snd (amerge ty (absv h ty a) (absv g ty b))) = nilfree (absv h ty a)"
  using assms
proof (induction ty arbitrary: a b)
  case (TBasic k)
  then show ?case by (auto split: sum.splits bool.splits)
next
  case (TStruct ds ts)
  from TStruct.prems(1) obtain as where a: "a = VStruct as" and cas: "list_all2 (conforms h) ts as"
    by (cases a) simp_all
  from TStruct.prems(2) obtain bs where b: "b = VStruct bs" and cbs: "list_all2 (conforms g) ts bs"
    by (cases b) simp_all
  from TStruct.prems(3)
  have nf: "\<not> fst (amerge_list (map amerge ts) (map2 (absv h) ts as) (map2 (absv g) ts bs))"
    unfolding a b by (simp add: Let_def)
  from amerge_list_unchanged[OF TStruct.IH cas cbs nf]
  show ?case unfolding a b by (simp add: Let_def)
next
  case (TMap kt vt)
  from TMap.prems(1) obtain ma where a: "a = VMap ma" by (cases a) simp_all
  from TMap.prems(2) obtain mb where b: "b = VMap mb" by (cases b) simp_all
  define mx where "mx = (case ma of None \<Rightarrow> None | Some r \<Rightarrow> Some (entries h vt r))"
  have x: "absv h (TMap kt vt) a = AMap mx"
    unfolding a mx_def by (cases ma) (simp_all add: entries_def)
  show ?case
  proof (cases mb)
    case None
    then show ?thesis unfolding b x by simp
  next
    case (Some rb)
    define f where "f = (case mx of None \<Rightarrow> Map.empty | Some f \<Rightarrow> f)"
    define e where "e = (\<lambda>k. amerge_entry (amerge vt) (absv [] vt (zero vt)) (f k) (entries g vt rb k))"
    have am: "amerge (TMap kt vt) (absv h (TMap kt vt) a) (absv g (TMap kt vt) b)
        = ((\<exists>k. fst (e k)), AMap (Some (\<lambda>k. snd (e k))))"
      unfolding x b Some absv_map e_def f_def by (simp add: Let_def)
    with TMap.prems(3) have nk: "\<And>k. \<not> fst (e k)" by simp
    have "snd (e k) = f k" for k
      using nk[of k] unfolding e_def
      by (cases "entries g vt rb k"; cases "f k") (auto simp: amerge_entry_def Let_def)
    then have "(\<lambda>k. snd (e k)) = f" by (simp add: fun_eq_iff)
    then have "nilfree (snd (amerge (TMap kt vt) (absv h (TMap kt vt) a) (absv g (TMap kt vt) b)))
        = AMap (Some (map_option nilfree \<circ> f))"
      unfolding am by simp
    moreover have "nilfree (absv h (TMap kt vt) a) = AMap (Some (map_option nilfree \<circ> f))"
      unfolding x f_def by (rule nilfree_AMap)
    ultimately show ?thesis by simp
  qed
next
  case (TPtr t)
  then show ?case by simp
next
  case (TNamed n u)
  then show ?case by simp
qed

section \<open>The changed flag\<close>




section \<open>Join and its inputs\<close>

text \<open>
  C9. \<open>Join(a, b)\<close> returns; its result is the value obtained by merging \<open>a\<close> and then \<open>b\<close>
  into the zero value of their type; and no map object that existed before the call is
  written to, so that \<open>a\<close> and \<open>b\<close> have the deep values they had.
\<close>

theorem join_leaves_inputs_unchanged:
  assumes "mergeable mt ty" and "conforms h ty a" and "conforms h ty b"
  shows "\<exists>c1 v1 h1 c2 v h'.
           merge mt ty (zero ty) a h = Inr (c1, v1, h1)
         \<and> merge mt ty v1 b h1 = Inr (c2, v, h')
         \<and> Join mt (ty, a) (ty, b) h = Inr ((ty, v), h')
         \<and> length h \<le> length h' \<and> (\<forall>r < length h. h' ! r = h ! r)
         \<and> absv h' ty a = absv h ty a \<and> absv h' ty b = absv h ty b"
proof -
  from join_refines[OF assms]
  obtain c1 v1 h1 c2 v h' where m1: "merge mt ty (zero ty) a h = Inr (c1, v1, h1)"
    and m2: "merge mt ty v1 b h1 = Inr (c2, v, h')" and f: "frame {} h h'"
    by blast
  have e: "reach h ty a \<inter> {} = {}" "reach h ty b \<inter> {} = {}" by simp_all
  from stable[OF assms(2) f e(1)] stable[OF assms(3) f e(2)]
  have "absv h' ty a = absv h ty a" "absv h' ty b = absv h ty b" by blast+
  moreover have "Join mt (ty, a) (ty, b) h = Inr ((ty, v), h')"
    using m1 m2 by (simp add: Join_def join_def)
  moreover have "length h \<le> length h'" "\<forall>r < length h. h' ! r = h ! r"
    using f by (simp_all add: frame_def)
  ultimately show ?thesis using m1 m2 by blast
qed

theorem join_leaves_inputs_unchanged_witness:
  "mergeable no_methods (TMap (TBasic (BInt K_int)) (TBasic (BInt K_int)))
   \<and> conforms [[(VInt 1, VInt 0)], [(VInt 2, VInt 1)]]
        (TMap (TBasic (BInt K_int)) (TBasic (BInt K_int))) (VMap (Some 0))
   \<and> conforms [[(VInt 1, VInt 0)], [(VInt 2, VInt 1)]]
        (TMap (TBasic (BInt K_int)) (TBasic (BInt K_int))) (VMap (Some 1))
   \<and> Join no_methods
        (TMap (TBasic (BInt K_int)) (TBasic (BInt K_int)), VMap (Some 0))
        (TMap (TBasic (BInt K_int)) (TBasic (BInt K_int)), VMap (Some 1))
        [[(VInt 1, VInt 0)], [(VInt 2, VInt 1)]]
       = Inr ((TMap (TBasic (BInt K_int)) (TBasic (BInt K_int)), VMap (Some 2)),
              [[(VInt 1, VInt 0)], [(VInt 2, VInt 1)], [(VInt 1, VInt 0), (VInt 2, VInt 1)]])"
proof -
  have 1: "mergeable no_methods (TMap (TBasic (BInt K_int)) (TBasic (BInt K_int)))"
    by (simp add: no_methods_def)
  have 2: "conforms [[(VInt 1, VInt 0)], [(VInt 2, VInt 1)]]
        (TMap (TBasic (BInt K_int)) (TBasic (BInt K_int))) (VMap (Some 0))"
    by (simp add: keys_ok_def)
  have 3: "conforms [[(VInt 1, VInt 0)], [(VInt 2, VInt 1)]]
        (TMap (TBasic (BInt K_int)) (TBasic (BInt K_int))) (VMap (Some 1))"
    by (simp add: keys_ok_def)
  from join_leaves_inputs_unchanged[OF 1 2 3] 1 2 3
  show ?thesis
    by (simp add: Join_def join_def merge_map_def MapKeys_def MapIndex_def SetMapIndex_def
        mapaccess_def key_eq_def)
qed

section \<open>Idempotence\<close>





text \<open>
  C7, as stated, fails on a map with a \<open>NaN\<close> key. \<open>Merge(&y, y)\<close> for
  \<open>y = map[float64]int{NaN: 1}\<close>: the key is found neither in \<open>b\<close> nor in \<open>a\<close>, line 121
  deletes it from \<open>a\<close>, which changes nothing, and line 122 sets the flag. The same happens
  when \<open>x\<close> is another map with the same contents.
\<close>

theorem merge_nan_key_counterexample:
  "Merge no_methods
     (TPtr (TMap (TBasic (BFloat K_float64)) (TBasic (BInt K_int))), VPtr (Some (VMap (Some 0))))
     (TMap (TBasic (BFloat K_float64)) (TBasic (BInt K_int)), VMap (Some 0))
     [[(VFloat FNaN, VInt 1)]]
     = Inr (True, VMap (Some 0), [[(VFloat FNaN, VInt 1)]])
   \<and> Merge no_methods
     (TPtr (TMap (TBasic (BFloat K_float64)) (TBasic (BInt K_int))), VPtr (Some (VMap (Some 0))))
     (TMap (TBasic (BFloat K_float64)) (TBasic (BInt K_int)), VMap (Some 1))
     [[(VFloat FNaN, VInt 1)], [(VFloat FNaN, VInt 1)]]
     = Inr (True, VMap (Some 0), [[(VFloat FNaN, VInt 1)], [(VFloat FNaN, VInt 1)]])"
  by (simp add: Merge_def merge_map_def MapKeys_def MapIndex_def SetMapIndex_def
      mapaccess_def mapdelete_def key_eq_def)



section \<open>A key of both maps\<close>




section \<open>Values that are not below zero\<close>

text \<open>
  The zero value is the bottom, and \<open>Join\<close> is commutative, as far as no value below zero
  is involved.
\<close>

lemma string_not_above_empty: "\<not> [] < (s::string) \<Longrightarrow> s = []"
  by (cases s) simp_all

lemma anorm_above_zero:
  assumes "conforms h ty a" and "above_zero h ty a" and "mergeable mt ty"
  shows "anorm ty (absv h ty a) = absv h ty a"
  using assms
proof (induction ty arbitrary: a)
  case (TBasic b)
  then show ?case
    by (cases b; cases a)
      (auto simp: anorm_def greater_def float_gt_def
        split: gofloat.splits bool.splits dest: string_not_above_empty)
next
  case (TStruct ds ts)
  from TStruct.prems(1) obtain as where a: "a = VStruct as" and cas: "list_all2 (conforms h) ts as"
    by (cases a) simp_all
  from TStruct.prems(2) have az: "list_all2 (above_zero h) ts as" unfolding a by simp
  from TStruct.prems(3) have "\<And>t. t \<in> set ts \<Longrightarrow> mergeable mt t"
    by (simp add: list_all_iff)
  with cas az TStruct.IH
  have "snd (amerge_list (map amerge ts) (map (\<lambda>t. absv [] t (zero t)) ts) (map2 (absv h) ts as))
      = map2 (absv h) ts as"
  proof (induction ts as rule: list_all2_induct)
    case Nil
    then show ?case by simp
  next
    case (Cons t ts x xs)
    have "anorm t (absv h t x) = absv h t x" using Cons by simp
    moreover have "snd (amerge_list (map amerge ts) (map (\<lambda>t. absv [] t (zero t)) ts) (map2 (absv h) ts xs))
      = map2 (absv h) ts xs" using Cons by simp
    ultimately show ?case by (simp add: anorm_def)
  qed
  then show ?case unfolding a anorm_def absv_zero_struct by (simp add: Let_def)
next
  case (TMap kt vt)
  then show ?case by (cases a) (auto split: option.splits)
next
  case (TPtr t)
  then show ?case by simp
next
  case (TNamed n u)
  then show ?case by simp
qed

lemma amerge_entry_commutes:
  assumes ih: "\<And>a b. conforms h vt a \<Longrightarrow> conforms h vt b \<Longrightarrow> above_zero h vt a
      \<Longrightarrow> above_zero h vt b
      \<Longrightarrow> nilfree (snd (amerge vt (absv h vt a) (absv h vt b)))
          = nilfree (snd (amerge vt (absv h vt b) (absv h vt a)))"
    and mg: "mergeable mt vt"
    and ca: "conforms h (TMap kt vt) (VMap (Some ra))" and cb: "conforms h (TMap kt vt) (VMap (Some rb))"
    and za: "above_zero h (TMap kt vt) (VMap (Some ra))"
    and zb: "above_zero h (TMap kt vt) (VMap (Some rb))"
  shows "map_option nilfree (snd (amerge_entry (amerge vt) (absv [] vt (zero vt))
            (entries h vt ra k) (entries h vt rb k)))
       = map_option nilfree (snd (amerge_entry (amerge vt) (absv [] vt (zero vt))
            (entries h vt rb k) (entries h vt ra k)))"
proof (cases "mapaccess (h ! ra) k")
  case None
  then have "entries h vt ra k = None" by (simp add: entries_def)
  then show ?thesis by (cases "entries h vt rb k") (simp_all add: amerge_entry_def)
next
  case a: (Some av)
  then have ea: "entries h vt ra k = Some (absv h vt av)" by (simp add: entries_def)
  from a obtain ka where "(ka, av) \<in> set (h ! ra)" using mapaccess_SomeD by blast
  with ca za have cav: "conforms h vt av" and zav: "above_zero h vt av" by auto
  show ?thesis
  proof (cases "mapaccess (h ! rb) k")
    case None
    then have "entries h vt rb k = None" by (simp add: entries_def)
    then show ?thesis unfolding ea by (simp add: amerge_entry_def)
  next
    case (Some bv)
    then have eb: "entries h vt rb k = Some (absv h vt bv)" by (simp add: entries_def)
    from Some obtain kb where "(kb, bv) \<in> set (h ! rb)" using mapaccess_SomeD by blast
    with cb zb have cbv: "conforms h vt bv" and zbv: "above_zero h vt bv" by auto
    let ?x = "absv h vt av" and ?y = "absv h vt bv"
    have na: "snd (amerge vt (absv [] vt (zero vt)) ?x) = ?x"
      using anorm_above_zero[OF cav zav mg] by (simp add: anorm_def)
    have nb: "snd (amerge vt (absv [] vt (zero vt)) ?y) = ?y"
      using anorm_above_zero[OF cbv zbv mg] by (simp add: anorm_def)
    have 1: "nilfree (if fst (amerge vt ?x ?y) then snd (amerge vt ?x ?y) else ?x)
        = nilfree (snd (amerge vt ?x ?y))"
      using amerge_unchanged[OF cav cbv] by simp
    have 2: "nilfree (if fst (amerge vt ?y ?x) then snd (amerge vt ?y ?x) else ?y)
        = nilfree (snd (amerge vt ?y ?x))"
      using amerge_unchanged[OF cbv cav] by simp
    show ?thesis
      unfolding ea eb amerge_entry_def using 1 2 ih[OF cav cbv zav zbv]
      by (simp add: na nb Let_def)
  qed
qed

lemma amerge_entry_copy:
  "snd (amerge_entry f z None y) = y"
  by (cases y) (simp_all add: amerge_entry_def)

lemma amerge_commutes:
  assumes "mergeable mt ty" and "conforms h ty a" and "conforms h ty b"
    and "above_zero h ty a" and "above_zero h ty b"
  shows "nilfree (snd (amerge ty (absv h ty a) (absv h ty b)))
       = nilfree (snd (amerge ty (absv h ty b) (absv h ty a)))"
  using assms
proof (induction ty arbitrary: a b)
  case (TBasic k)
  then show ?case
    by (cases k; cases a; cases b)
      (auto simp: greater_def float_gt_def split: gofloat.splits bool.splits)
next
  case (TStruct ds ts)
  from TStruct.prems(2) obtain as where a: "a = VStruct as" and cas: "list_all2 (conforms h) ts as"
    by (cases a) simp_all
  from TStruct.prems(3) obtain bs where b: "b = VStruct bs" and cbs: "list_all2 (conforms h) ts bs"
    by (cases b) simp_all
  from TStruct.prems(4,5) have za: "list_all2 (above_zero h) ts as"
    and zb: "list_all2 (above_zero h) ts bs" unfolding a b by simp_all
  from TStruct.prems(1) have mg: "\<And>t. t \<in> set ts \<Longrightarrow> mergeable mt t"
    by (simp add: list_all_iff)
  from cas cbs za zb mg TStruct.IH
  have "map nilfree (snd (amerge_list (map amerge ts) (map2 (absv h) ts as) (map2 (absv h) ts bs)))
      = map nilfree (snd (amerge_list (map amerge ts) (map2 (absv h) ts bs) (map2 (absv h) ts as)))"
  proof (induction ts arbitrary: as bs)
    case Nil
    then show ?case by simp
  next
    case (Cons t ts)
    from Cons.prems(1) obtain x xs where as: "as = x # xs" by (cases as) auto
    from Cons.prems(2) obtain y ys where bs: "bs = y # ys" by (cases bs) auto
    have "nilfree (snd (amerge t (absv h t x) (absv h t y)))
        = nilfree (snd (amerge t (absv h t y) (absv h t x)))"
      using Cons.prems unfolding as bs by simp
    moreover have "map nilfree (snd (amerge_list (map amerge ts) (map2 (absv h) ts xs) (map2 (absv h) ts ys)))
      = map nilfree (snd (amerge_list (map amerge ts) (map2 (absv h) ts ys) (map2 (absv h) ts xs)))"
      using Cons.IH[of xs ys] Cons.prems unfolding as bs by simp
    ultimately show ?case unfolding as bs by simp
  qed
  then show ?case unfolding a b by (simp add: Let_def)
next
  case (TMap kt vt)
  from TMap.prems(2) obtain ma where a: "a = VMap ma" by (cases a) simp_all
  from TMap.prems(3) obtain mb where b: "b = VMap mb" by (cases b) simp_all
  from TMap.prems(1) have mg: "mergeable mt vt" by simp
  show ?case
  proof (cases ma)
    case None
    show ?thesis
    proof (cases mb)
      case nb: None
      show ?thesis unfolding a b None nb by simp
    next
      case (Some rb)
      show ?thesis unfolding a b None Some absv_map
        by (simp add: Let_def amerge_entry_copy)
    qed
  next
    case (Some ra)
    show ?thesis
    proof (cases mb)
      case None
      show ?thesis unfolding a b None Some absv_map
        by (simp add: Let_def amerge_entry_copy)
    next
      case sb: (Some rb)
      have "map_option nilfree (snd (amerge_entry (amerge vt) (absv [] vt (zero vt))
            (entries h vt ra k) (entries h vt rb k)))
       = map_option nilfree (snd (amerge_entry (amerge vt) (absv [] vt (zero vt))
            (entries h vt rb k) (entries h vt ra k)))" for k
        by (rule amerge_entry_commutes[OF _ mg TMap.prems(2)[unfolded a Some]
              TMap.prems(3)[unfolded b sb] TMap.prems(4)[unfolded a Some]
              TMap.prems(5)[unfolded b sb]])
          (use TMap.IH(2) mg in blast)
      then show ?thesis unfolding a b Some sb absv_map
        by (simp add: Let_def fun_eq_iff)
    qed
  qed
next
  case (TPtr t)
  then show ?case by simp
next
  case (TNamed n u)
  then show ?case by simp
qed

text \<open>
  Where no value is below zero, \<open>Join\<close> is commutative up to nil maps: the failure of
  commutativity is confined to the values that the zero value is not below.
\<close>

lemma join_commutes_above_zero:
  assumes mg: "mergeable mt ty" and ca: "conforms h ty a" and cb: "conforms h ty b"
    and za: "above_zero h ty a" and zb: "above_zero h ty b"
  shows "\<exists>v h1 w h2. Join mt (ty, a) (ty, b) h = Inr ((ty, v), h1)
           \<and> Join mt (ty, b) (ty, a) h = Inr ((ty, w), h2)
           \<and> nilfree (absv h1 ty v) = nilfree (absv h2 ty w)"
proof -
  from join_refines[OF mg ca cb]
  obtain c1 v1 g1 c2 v h1 where m1: "merge mt ty (zero ty) a h = Inr (c1, v1, g1)"
    and m2: "merge mt ty v1 b g1 = Inr (c2, v, h1)"
    and e1: "(c1, absv g1 ty v1) = amerge ty (absv [] ty (zero ty)) (absv h ty a)"
    and e2: "(c2, absv h1 ty v) = amerge ty (absv g1 ty v1) (absv h ty b)"
    by blast
  from join_refines[OF mg cb ca]
  obtain d1 w1 k1 d2 w h2 where n1: "merge mt ty (zero ty) b h = Inr (d1, w1, k1)"
    and n2: "merge mt ty w1 a k1 = Inr (d2, w, h2)"
    and f1: "(d1, absv k1 ty w1) = amerge ty (absv [] ty (zero ty)) (absv h ty b)"
    and f2: "(d2, absv h2 ty w) = amerge ty (absv k1 ty w1) (absv h ty a)"
    by blast
  from e1 have "absv g1 ty v1 = anorm ty (absv h ty a)"
    unfolding anorm_def by (metis snd_conv)
  then have v1: "absv g1 ty v1 = absv h ty a"
    using anorm_above_zero[OF ca za mg] by simp
  from f1 have "absv k1 ty w1 = anorm ty (absv h ty b)"
    unfolding anorm_def by (metis snd_conv)
  then have w1: "absv k1 ty w1 = absv h ty b"
    using anorm_above_zero[OF cb zb mg] by simp
  from e2 have v: "absv h1 ty v = snd (amerge ty (absv h ty a) (absv h ty b))"
    unfolding v1 by (metis snd_conv)
  from f2 have w: "absv h2 ty w = snd (amerge ty (absv h ty b) (absv h ty a))"
    unfolding w1 by (metis snd_conv)
  have "nilfree (absv h1 ty v) = nilfree (absv h2 ty w)"
    unfolding v w by (rule amerge_commutes[OF mg ca cb za zb])
  moreover have "Join mt (ty, a) (ty, b) h = Inr ((ty, v), h1)"
    using m1 m2 by (simp add: Join_def join_def)
  moreover have "Join mt (ty, b) (ty, a) h = Inr ((ty, w), h2)"
    using n1 n2 by (simp add: Join_def join_def)
  ultimately show ?thesis by blast
qed

lemma above_zero_zero: "above_zero h ty (zero ty)"
proof (induction ty)
  case (TBasic b)
  then show ?case by (cases b) simp_all
next
  case (TStruct ds ts)
  then show ?case by (simp add: list_all2_map_same)
qed simp_all

lemma amerge_zero_right:
  assumes "mergeable mt ty" and "conforms h ty a" and "above_zero h ty a"
  shows "snd (amerge ty (absv h ty a) (absv [] ty (zero ty))) = absv h ty a"
  using assms
proof (induction ty arbitrary: a)
  case (TBasic b)
  then show ?case
    by (cases b; cases a)
      (auto simp: greater_def float_gt_def split: gofloat.splits bool.splits)
next
  case (TStruct ds ts)
  from TStruct.prems(2) obtain as where a: "a = VStruct as" and cas: "list_all2 (conforms h) ts as"
    by (cases a) simp_all
  from TStruct.prems(3) have az: "list_all2 (above_zero h) ts as" unfolding a by simp
  from TStruct.prems(1) have "\<And>t. t \<in> set ts \<Longrightarrow> mergeable mt t"
    by (simp add: list_all_iff)
  with cas az TStruct.IH
  have "snd (amerge_list (map amerge ts) (map2 (absv h) ts as) (map (\<lambda>t. absv [] t (zero t)) ts))
      = map2 (absv h) ts as"
  proof (induction ts as rule: list_all2_induct)
    case Nil
    then show ?case by simp
  next
    case (Cons t ts x xs)
    have "snd (amerge t (absv h t x) (absv [] t (zero t))) = absv h t x" using Cons by simp
    moreover have "snd (amerge_list (map amerge ts) (map2 (absv h) ts xs) (map (\<lambda>t. absv [] t (zero t)) ts))
      = map2 (absv h) ts xs" using Cons by simp
    ultimately show ?case by simp
  qed
  then show ?case unfolding a absv_zero_struct by (simp add: Let_def)
next
  case (TMap kt vt)
  then show ?case by (cases a) (auto split: option.splits)
next
  case (TPtr t)
  then show ?case by simp
next
  case (TNamed n u)
  then show ?case by simp
qed

text \<open>
  Where no value of \<open>a\<close> is below zero, the zero value is the bottom: \<open>Join(a, zero)\<close> and
  \<open>Join(zero, a)\<close> have the deep value of \<open>a\<close>.
\<close>

lemma join_zero_above_zero:
  assumes mg: "mergeable mt ty" and ca: "conforms h ty a" and za: "above_zero h ty a"
  shows "\<exists>v h1 w h2. Join mt (ty, a) (ty, zero ty) h = Inr ((ty, v), h1)
           \<and> Join mt (ty, zero ty) (ty, a) h = Inr ((ty, w), h2)
           \<and> absv h1 ty v = absv h ty a \<and> absv h2 ty w = absv h ty a"
proof -
  from join_refines[OF mg ca conforms_zero]
  obtain c1 v1 g1 c2 v h1 where m1: "merge mt ty (zero ty) a h = Inr (c1, v1, g1)"
    and m2: "merge mt ty v1 (zero ty) g1 = Inr (c2, v, h1)"
    and e1: "(c1, absv g1 ty v1) = amerge ty (absv [] ty (zero ty)) (absv h ty a)"
    and e2: "(c2, absv h1 ty v) = amerge ty (absv g1 ty v1) (absv h ty (zero ty))"
    by blast
  from join_refines[OF mg conforms_zero ca]
  obtain d1 w1 k1 d2 w h2 where n1: "merge mt ty (zero ty) (zero ty) h = Inr (d1, w1, k1)"
    and n2: "merge mt ty w1 a k1 = Inr (d2, w, h2)"
    and f1: "(d1, absv k1 ty w1) = amerge ty (absv [] ty (zero ty)) (absv h ty (zero ty))"
    and f2: "(d2, absv h2 ty w) = amerge ty (absv k1 ty w1) (absv h ty a)"
    by blast
  from e1 have "absv g1 ty v1 = anorm ty (absv h ty a)"
    unfolding anorm_def by (metis snd_conv)
  then have v1: "absv g1 ty v1 = absv h ty a"
    using anorm_above_zero[OF ca za mg] by simp
  from e2 have v: "absv h1 ty v = absv h ty a"
    unfolding v1 absv_zero[of h] using amerge_zero_right[OF mg ca za] by (metis snd_conv)
  from f1 have "absv k1 ty w1 = anorm ty (absv h ty (zero ty))"
    unfolding anorm_def by (metis snd_conv)
  then have w1: "absv k1 ty w1 = absv [] ty (zero ty)"
    using anorm_above_zero[OF conforms_zero above_zero_zero mg, of h] absv_zero[of h ty] by simp
  from f2 have "absv h2 ty w = anorm ty (absv h ty a)"
    unfolding w1 anorm_def by (metis snd_conv)
  then have w: "absv h2 ty w = absv h ty a"
    using anorm_above_zero[OF ca za mg] by simp
  have "Join mt (ty, a) (ty, zero ty) h = Inr ((ty, v), h1)"
    using m1 m2 by (simp add: Join_def join_def)
  moreover have "Join mt (ty, zero ty) (ty, a) h = Inr ((ty, w), h2)"
    using n1 n2 by (simp add: Join_def join_def)
  ultimately show ?thesis using v w by blast
qed

end
